theory Spec2Isabelle
  imports Main "HOL-Library.Char_ord" "HOL-Library.Word"
begin

section \<open>The advanced lexer of the compiler tutorial (lexer-advanced.cpp)\<close>

text \<open>
  The development embeds \<^verbatim>\<open>Lexer::next\<close>, \<^verbatim>\<open>Lexer::identifier\<close>,
  \<^verbatim>\<open>Lexer::number\<close> and the keyword table of \<^verbatim>\<open>src/lexer-advanced.cpp\<close>.

  Modelling decisions:
  \<^item> \<^verbatim>\<open>std::string\<close> is a \<open>char list\<close>; a \<open>char\<close> is one byte.
  \<^item> The cursor fields \<^verbatim>\<open>int m_pos, m_start\<close> are 32-bit words read as signed
    numbers (\<open>sint\<close>). Addition and subtraction wrap around, which is what the
    increments \<^verbatim>\<open>m_pos + 1\<close>, \<^verbatim>\<open>m_pos++\<close>, \<^verbatim>\<open>++m_pos\<close> and the difference
    \<^verbatim>\<open>m_pos - m_start\<close> do on the usual two's complement targets once a source is
    longer than \<^verbatim>\<open>INT_MAX = 2147483647\<close> characters.
  \<^item> Where the code hands an \<^verbatim>\<open>int\<close> to a \<^verbatim>\<open>size_t\<close> parameter (an index, the
    arguments of the substring constructor) the value is converted to 64 bits
    (\<open>to_size_t\<close>); where it compares an \<^verbatim>\<open>int\<close> with a length, the comparison is
    \<open>less_size\<close>.
  \<^item> \<^verbatim>\<open>isalpha\<close>, \<^verbatim>\<open>isalnum\<close> and \<^verbatim>\<open>isnumber\<close> of the C library are
    taken in the "C" locale: the ASCII letters and the ASCII digits.
  \<^item> The constructor \<^verbatim>\<open>string(str, pos, len)\<close> throws \<^verbatim>\<open>std::out_of_range\<close>
    when \<open>pos\<close> is beyond the end of \<open>str\<close>; the exception is a value of the result.
  \<^item> A \<^verbatim>\<open>Token\<close> built by \<^verbatim>\<open>{ type, value }\<close> or \<^verbatim>\<open>{ type }\<close> is an aggregate
    initialisation: the members that are not mentioned (\<^verbatim>\<open>value\<close>, \<^verbatim>\<open>line\<close>,
    \<^verbatim>\<open>column\<close>) are value-initialised, to the empty string and to \<open>0\<close>.
\<close>

subsection \<open>Token kinds, tokens and the keyword table\<close>

text \<open>
  The enumeration \<^verbatim>\<open>TokenType\<close>. The enumerators \<^verbatim>\<open>Plus\<close>, \<^verbatim>\<open>Int\<close> and
  \<^verbatim>\<open>If\<close> carry the suffix \<open>_tok\<close>, because \<open>Plus\<close>, \<open>Int\<close> and \<open>If\<close> are taken in HOL.
\<close>

datatype TokenType =
    Invalid
  | Identifier
  | Assign
  | Multiply
  | Divide
  | Plus_tok
  | Minus
  | Greater
  | GreaterEqual
  | Equal
  | LesserEqual
  | Lesser
  | BraceOpen
  | BraceClose
  | ParenOpen
  | ParenClose
  | Comma
  | Colon
  | SemiColon
  | IntegerLiteral
  | FloatLiteral
  | StringLiteral
  | Int_tok
  | Double
  | String
  | Function
  | Return
  | If_tok
  | Else
  | For
  | Continue
  | Break
  | EndOfInput

record Token =
  type :: TokenType
  "value" :: string
  line :: int
  column :: int

text \<open>\<^verbatim>\<open>{ t, v }\<close>: the aggregate initialisation used at every return site.\<close>

definition mk_token :: "TokenType \<Rightarrow> string \<Rightarrow> Token" where
  "mk_token t v = \<lparr>type = t, value = v, line = 0, column = 0\<rparr>"

text \<open>The initialiser list of \<^verbatim>\<open>keywordMap\<close> and the lookup \<^verbatim>\<open>keywordMap.find\<close>.\<close>

definition keyword_table :: "(string \<times> TokenType) list" where
  "keyword_table =
    [(''int'', Int_tok),
     (''double'', Double),
     (''string'', String),
     (''function'', Function),
     (''return'', Return),
     (''if'', If_tok),
     (''else'', Else),
     (''for'', For),
     (''continue'', Continue),
     (''break'', Break)]"

definition keywordMap :: "string \<rightharpoonup> TokenType" where
  "keywordMap = map_of keyword_table"

subsection \<open>Character classes\<close>

definition isalpha :: "char \<Rightarrow> bool" where
  "isalpha c \<longleftrightarrow>
     (CHR ''a'' \<le> c \<and> c \<le> CHR ''z'') \<or> (CHR ''A'' \<le> c \<and> c \<le> CHR ''Z'')"

definition isnumber :: "char \<Rightarrow> bool" where
  "isnumber c \<longleftrightarrow> CHR ''0'' \<le> c \<and> c \<le> CHR ''9''"

definition isalnum :: "char \<Rightarrow> bool" where
  "isalnum c \<longleftrightarrow> isalpha c \<or> isnumber c"

text \<open>The test \<^verbatim>\<open>ch == ' ' || ch == '\n' || ch == '\r' || ch == '\t'\<close> of \<^verbatim>\<open>next\<close>.\<close>

definition is_space :: "char \<Rightarrow> bool" where
  "is_space ch \<longleftrightarrow>
     ch = CHR '' '' \<or> ch = CHR 0x0A \<or> ch = CHR 0x0D \<or> ch = CHR 0x09"

subsection \<open>Machine integers\<close>

text \<open>The C++ \<^verbatim>\<open>int\<close>: 32 bits, two's complement, read by \<open>sint\<close>.\<close>

type_synonym int32 = "32 word"

text \<open>
  The conversion of an \<^verbatim>\<open>int\<close> to \<^verbatim>\<open>size_t\<close> (64 bits): a negative value becomes
  \<open>2\<^sup>6\<^sup>4\<close> plus the value.
\<close>

definition to_size_t :: "int32 \<Rightarrow> nat" where
  "to_size_t i =
     (if 0 \<le> sint i then nat (sint i) else nat (18446744073709551616 + sint i))"

text \<open>
  The comparison \<^verbatim>\<open>i < n\<close> of an \<^verbatim>\<open>int\<close> with the length of a string. The code
  converts \<open>i\<close> to \<^verbatim>\<open>size_t\<close> first, so a negative \<open>i\<close> is at least
  \<open>2\<^sup>6\<^sup>4 - 2\<^sup>3\<^sup>1\<close>, beyond the length of every string that fits a 64-bit address
  space: the comparison holds exactly when \<open>i\<close> is not negative and below \<open>n\<close>
  (\<open>less_size_to_size_t\<close> below).
\<close>

definition less_size :: "int32 \<Rightarrow> nat \<Rightarrow> bool" where
  "less_size i n \<longleftrightarrow> 0 \<le> sint i \<and> nat (sint i) < n"

lemma sint_range32: "- 2147483648 \<le> sint (w :: int32) \<and> sint w \<le> 2147483647"
  using sint_ge [of w] sint_lt [of w] by simp

lemma less_size_to_size_t:
  "n \<le> 18446744071562067968 \<Longrightarrow> less_size i n \<longleftrightarrow> to_size_t i < n"
  using sint_range32 [of i] by (auto simp: less_size_def to_size_t_def)

lemma word_of_sint: "sint (p :: int32) = k \<Longrightarrow> p = of_int k"
  by auto

lemma sint_succ:
  "sint (p + 1 :: int32) = (if sint p = 2147483647 then - 2147483648 else sint p + 1)"
proof (cases "sint p = 2147483647")
  case True
  then have "p = 2147483647"
    by (auto dest: word_of_sint)
  then show ?thesis
    by simp
next
  case False
  with sint_range32 [of p] have "- (2 ^ 31) \<le> sint p + 1" "sint p + 1 < 2 ^ 31"
    by simp_all
  then have "signed_take_bit 31 (sint p + 1) = sint p + 1"
    by (rule signed_take_bit_int_eq_self)
  with False show ?thesis
    by (simp add: sint_word_add)
qed

lemma sint_of_nat32: "n \<le> 2147483647 \<Longrightarrow> sint (of_nat n :: int32) = int n"
proof -
  assume "n \<le> 2147483647"
  then have "- (2 ^ 31) \<le> int n" "int n < 2 ^ 31"
    by simp_all
  then have "signed_take_bit 31 (int n) = int n"
    by (rule signed_take_bit_int_eq_self)
  then show ?thesis
    by (simp add: signed_of_nat)
qed

lemma of_nat_sint32: "0 \<le> sint (w :: int32) \<Longrightarrow> of_nat (nat (sint w)) = w"
  by simp

subsection \<open>The scanner\<close>

datatype error = out_of_range

text \<open>\<^verbatim>\<open>std::string(str, pos, len)\<close>: the substring constructor.\<close>

definition substr :: "string \<Rightarrow> nat \<Rightarrow> nat \<Rightarrow> error + string" where
  "substr str pos n =
     (if length str < pos then Inl out_of_range else Inr (take n (drop pos str)))"

record Lexer =
  m_source :: string
  m_pos :: int32
  m_start :: int32

text \<open>The constructor \<^verbatim>\<open>Lexer(string source)\<close>.\<close>

definition new_Lexer :: "string \<Rightarrow> Lexer" where
  "new_Lexer source = \<lparr>m_source = source, m_pos = 0, m_start = 0\<rparr>"

text \<open>
  The characters between the position and the end of the source; none when the
  position is negative or beyond the end. Every loop of the scanner is a total function
  because this number goes down.
\<close>

definition remaining :: "Lexer \<Rightarrow> nat" where
  "remaining L =
     (if less_size (m_pos L) (length (m_source L))
      then length (m_source L) - nat (sint (m_pos L)) else 0)"

lemma remaining_step:
  "less_size (m_pos L) (length (m_source L)) \<Longrightarrow>
     remaining (L\<lparr>m_pos := m_pos L + 1\<rparr>) < remaining L"
  by (auto simp: remaining_def less_size_def sint_succ)

lemma remaining_start [simp]: "remaining (L\<lparr>m_start := s\<rparr>) = remaining L"
  by (simp add: remaining_def)

lemma remaining_step_start:
  "less_size (m_pos L) (length (m_source L)) \<Longrightarrow>
     remaining (L\<lparr>m_start := s, m_pos := m_pos L + 1\<rparr>) < remaining L"
  by (auto simp: remaining_def less_size_def sint_succ)

text \<open>
  \<^verbatim>\<open>while (m_pos < m_source.length() && isalnum(m_source[m_pos])) m_pos++;\<close>
  and the same loop with \<^verbatim>\<open>isnumber\<close>.
\<close>

function identifier_loop :: "Lexer \<Rightarrow> Lexer" where
  "identifier_loop L =
     (if less_size (m_pos L) (length (m_source L)) \<and>
         isalnum (m_source L ! to_size_t (m_pos L))
      then identifier_loop (L\<lparr>m_pos := m_pos L + 1\<rparr>)
      else L)"
  by pat_completeness auto
termination
  by (relation "measure remaining") (auto simp: remaining_step)

function number_loop :: "Lexer \<Rightarrow> Lexer" where
  "number_loop L =
     (if less_size (m_pos L) (length (m_source L)) \<and>
         isnumber (m_source L ! to_size_t (m_pos L))
      then number_loop (L\<lparr>m_pos := m_pos L + 1\<rparr>)
      else L)"
  by pat_completeness auto
termination
  by (relation "measure remaining") (auto simp: remaining_step)

text \<open>\<^verbatim>\<open>Token identifier()\<close>: the token and the scanner after the call.\<close>

definition "identifier" :: "Lexer \<Rightarrow> error + Token \<times> Lexer" where
  "identifier L =
     (let L1 = identifier_loop L in
      case substr (m_source L1) (to_size_t (m_start L1))
             (to_size_t (m_pos L1 - m_start L1)) of
        Inl e \<Rightarrow> Inl e
      | Inr lexeme \<Rightarrow>
          (case keywordMap lexeme of
             Some k \<Rightarrow> Inr (mk_token k lexeme, L1)
           | None \<Rightarrow> Inr (mk_token Identifier lexeme, L1)))"

text \<open>\<^verbatim>\<open>Token number()\<close>.\<close>

definition number :: "Lexer \<Rightarrow> error + Token \<times> Lexer" where
  "number L =
     (let L1 = number_loop L in
      case substr (m_source L1) (to_size_t (m_start L1))
             (to_size_t (m_pos L1 - m_start L1)) of
        Inl e \<Rightarrow> Inl e
      | Inr lexeme \<Rightarrow> Inr (mk_token IntegerLiteral lexeme, L1))"

text \<open>
  The comment loop \<^verbatim>\<open>while (++m_pos < len && m_source[m_pos] != '\n');\<close>: the
  position is incremented before every test.
\<close>

function comment_loop :: "Lexer \<Rightarrow> Lexer" where
  "comment_loop L =
     (let L1 = L\<lparr>m_pos := m_pos L + 1\<rparr> in
      if less_size (m_pos L1) (length (m_source L1)) \<and>
         m_source L1 ! to_size_t (m_pos L1) \<noteq> CHR 0x0A
      then comment_loop L1
      else L1)"
  by pat_completeness auto
termination
proof (relation "measure (\<lambda>L. nat (2147483648 - sint (m_pos L)))")
  show "wf (measure (\<lambda>L. nat (2147483648 - sint (m_pos L))))"
    by simp
next
  fix L L1 :: Lexer
  assume "L1 = L\<lparr>m_pos := m_pos L + 1\<rparr>"
    and "less_size (m_pos L1) (length (m_source L1)) \<and>
      m_source L1 ! to_size_t (m_pos L1) \<noteq> CHR 0x0A"
  then show "(L1, L) \<in> measure (\<lambda>L. nat (2147483648 - sint (m_pos L)))"
    using sint_range32 [of "m_pos L"]
    by (auto simp: less_size_def sint_succ split: if_splits)
qed

text \<open>
  The \<^verbatim>\<open>switch (ch)\<close> of \<^verbatim>\<open>next\<close>: the kind of the operator, and the scanner,
  whose position moves once more for a two-character operator. \<open>next_ch\<close> is the local
  \<^verbatim>\<open>next\<close> of the source, the character after \<open>ch\<close> or \<^verbatim>\<open>'\0'\<close>.
\<close>

definition operator_switch :: "char \<Rightarrow> char \<Rightarrow> Lexer \<Rightarrow> TokenType \<times> Lexer" where
  "operator_switch ch next_ch L =
     (if ch = CHR ''='' then
        (if next_ch = CHR ''='' then (Equal, L\<lparr>m_pos := m_pos L + 1\<rparr>) else (Assign, L))
      else if ch = CHR ''*'' then (Multiply, L)
      else if ch = CHR ''/'' then (Divide, L)
      else if ch = CHR ''+'' then (Plus_tok, L)
      else if ch = CHR ''-'' then (Minus, L)
      else if ch = CHR ''>'' then
        (if next_ch = CHR ''='' then (GreaterEqual, L\<lparr>m_pos := m_pos L + 1\<rparr>) else (Greater, L))
      else if ch = CHR ''<'' then
        (if next_ch = CHR ''='' then (LesserEqual, L\<lparr>m_pos := m_pos L + 1\<rparr>) else (Lesser, L))
      else if ch = CHR ''{'' then (BraceOpen, L)
      else if ch = CHR ''}'' then (BraceClose, L)
      else if ch = CHR ''('' then (ParenOpen, L)
      else if ch = CHR '')'' then (ParenClose, L)
      else if ch = CHR '','' then (Comma, L)
      else if ch = CHR '':'' then (Colon, L)
      else if ch = CHR '';'' then (SemiColon, L)
      else (Invalid, L))"

text \<open>
  The part of the loop body of \<^verbatim>\<open>next\<close> that returns: the scanner \<open>L\<close> is the one
  after \<^verbatim>\<open>m_start = m_pos++\<close>, and \<open>ch\<close> is neither white space nor the start of a
  comment.
\<close>

definition dispatch :: "char \<Rightarrow> char \<Rightarrow> Lexer \<Rightarrow> error + Token \<times> Lexer" where
  "dispatch ch next_ch L =
     (if isalpha ch then identifier L
      else if isnumber ch then number L
      else
        (case operator_switch ch next_ch L of
           (t, L2) \<Rightarrow>
             (case substr (m_source L2) (to_size_t (m_start L2))
                     (to_size_t (m_pos L2 - m_start L2)) of
                Inl e \<Rightarrow> Inl e
              | Inr lexeme \<Rightarrow> Inr (mk_token t lexeme, L2))))"

text \<open>The loop \<^verbatim>\<open>while (m_pos < len) { ... }\<close> of \<^verbatim>\<open>next\<close> and the return after it.\<close>

function next_loop :: "Lexer \<Rightarrow> error + Token \<times> Lexer" where
  "next_loop L =
     (let len = length (m_source L) in
      if less_size (m_pos L) len then
        (let ch = m_source L ! to_size_t (m_pos L);
             next_ch = (if less_size (m_pos L + 1) (length (m_source L))
                        then m_source L ! to_size_t (m_pos L + 1) else CHR 0x00);
             L1 = L\<lparr>m_start := m_pos L, m_pos := m_pos L + 1\<rparr>
         in if is_space ch then next_loop L1
            else if ch = CHR ''/'' \<and> less_size (m_pos L1) len \<and> next_ch = CHR ''/''
            then next_loop (comment_loop L1)
            else dispatch ch next_ch L1)
      else Inr (mk_token EndOfInput [], L))"
  by pat_completeness auto

subsection \<open>The comment loop moves forward: termination of the loop of \<open>next\<close>\<close>

declare identifier_loop.simps [simp del]
declare number_loop.simps [simp del]
declare comment_loop.simps [simp del]

lemma comment_loop_source: "m_source (comment_loop L) = m_source L"
  by (induction L rule: comment_loop.induct) (subst comment_loop.simps, simp add: Let_def)

lemma comment_loop_start: "m_start (comment_loop L) = m_start L"
  by (induction L rule: comment_loop.induct) (subst comment_loop.simps, simp add: Let_def)

lemma comment_loop_remaining:
  "remaining (comment_loop L) \<le> remaining (L\<lparr>m_pos := m_pos L + 1\<rparr>)"
proof (induction L rule: comment_loop.induct)
  case (1 L)
  let ?L1 = "L\<lparr>m_pos := m_pos L + 1\<rparr>"
  show ?case
  proof (cases "less_size (m_pos ?L1) (length (m_source ?L1)) \<and>
      m_source ?L1 ! to_size_t (m_pos ?L1) \<noteq> CHR 0x0A")
    case True
    then have "remaining (?L1\<lparr>m_pos := m_pos ?L1 + 1\<rparr>) < remaining ?L1"
      by (intro remaining_step) simp
    with "1.IH" [OF refl True] True show ?thesis
      by (subst comment_loop.simps) (simp add: Let_def)
  next
    case False
    then show ?thesis
      by (subst comment_loop.simps) (auto simp: Let_def)
  qed
qed

termination next_loop
proof (relation "measure remaining")
  show "wf (measure remaining)"
    by simp
next
  fix L :: Lexer and len ch next_ch L1
  assume "len = length (m_source L)" and "less_size (m_pos L) len"
    and "L1 = L\<lparr>m_start := m_pos L, m_pos := m_pos L + 1\<rparr>"
  then show "(L1, L) \<in> measure remaining"
    by (simp add: remaining_step_start)
next
  fix L :: Lexer and len ch next_ch L1
  assume a: "len = length (m_source L)" "less_size (m_pos L) len"
    "L1 = L\<lparr>m_start := m_pos L, m_pos := m_pos L + 1\<rparr>"
    and c: "ch = CHR ''/'' \<and> less_size (m_pos L1) len \<and> next_ch = CHR ''/''"
  from a c have "remaining (L1\<lparr>m_pos := m_pos L1 + 1\<rparr>) < remaining L1"
    by (intro remaining_step) simp
  moreover from a have "remaining L1 < remaining L"
    by (simp add: remaining_step_start)
  ultimately show "(comment_loop L1, L) \<in> measure remaining"
    using comment_loop_remaining [of L1] by simp
qed

declare next_loop.simps [simp del]

text \<open>\<^verbatim>\<open>Token next()\<close>: the token and the scanner after the call.\<close>

definition "next" :: "Lexer \<Rightarrow> error + Token \<times> Lexer" where
  "next L =
     (let len = length (m_source L) in
      if len = 0 then Inr (mk_token EndOfInput [], L) else next_loop L)"

lemma identifier_loop_source: "m_source (identifier_loop L) = m_source L"
  by (induction L rule: identifier_loop.induct) (subst identifier_loop.simps, simp)

lemma identifier_loop_start: "m_start (identifier_loop L) = m_start L"
  by (induction L rule: identifier_loop.induct) (subst identifier_loop.simps, simp)

lemma identifier_loop_remaining: "remaining (identifier_loop L) \<le> remaining L"
proof (induction L rule: identifier_loop.induct)
  case (1 L)
  show ?case
  proof (cases "less_size (m_pos L) (length (m_source L)) \<and>
      isalnum (m_source L ! to_size_t (m_pos L))")
    case True
    with "1.IH" remaining_step [of L] show ?thesis
      by (subst identifier_loop.simps) simp
  next
    case False
    then show ?thesis
      by (subst identifier_loop.simps) auto
  qed
qed

lemma number_loop_source: "m_source (number_loop L) = m_source L"
  by (induction L rule: number_loop.induct) (subst number_loop.simps, simp)

lemma number_loop_start: "m_start (number_loop L) = m_start L"
  by (induction L rule: number_loop.induct) (subst number_loop.simps, simp)

lemma number_loop_remaining: "remaining (number_loop L) \<le> remaining L"
proof (induction L rule: number_loop.induct)
  case (1 L)
  show ?case
  proof (cases "less_size (m_pos L) (length (m_source L)) \<and>
      isnumber (m_source L ! to_size_t (m_pos L))")
    case True
    with "1.IH" remaining_step [of L] show ?thesis
      by (subst number_loop.simps) simp
  next
    case False
    then show ?thesis
      by (subst number_loop.simps) auto
  qed
qed

lemma keywordMap_not_special:
  "keywordMap w = Some k \<Longrightarrow>
     k \<noteq> EndOfInput \<and> k \<noteq> Identifier \<and> k \<noteq> IntegerLiteral \<and> k \<noteq> Invalid"
  by (auto simp: keywordMap_def keyword_table_def split: if_splits)

lemma to_size_t_less: "less_size i n \<Longrightarrow> to_size_t i = nat (sint i) \<and> to_size_t i < n"
  by (simp add: less_size_def to_size_t_def)

text \<open>What every token returned by the dispatch has, whatever the length of the source.\<close>

definition emitted :: "Lexer \<Rightarrow> Token \<Rightarrow> Lexer \<Rightarrow> bool" where
  "emitted L t L' \<longleftrightarrow>
     type t \<noteq> EndOfInput \<and> line t = 0 \<and> column t = 0 \<and>
     m_source L' = m_source L \<and> m_start L' = m_start L \<and> remaining L' \<le> remaining L"

lemma identifier_emitted:
  assumes "less_size (m_start L) (length (m_source L))"
  shows "\<exists>t L'. identifier L = Inr (t, L') \<and> emitted L t L'"
  using to_size_t_less [OF assms]
  by (auto simp: identifier_def Let_def substr_def emitted_def mk_token_def
      identifier_loop_source identifier_loop_start identifier_loop_remaining
      dest: keywordMap_not_special split: option.splits)

lemma number_emitted:
  assumes "less_size (m_start L) (length (m_source L))"
  shows "\<exists>t L'. number L = Inr (t, L') \<and> emitted L t L'"
  using to_size_t_less [OF assms]
  by (auto simp: number_def Let_def substr_def emitted_def mk_token_def
      number_loop_source number_loop_start number_loop_remaining)

lemma operator_switch_cases:
  "operator_switch ch next_ch L = (t, L2) \<Longrightarrow>
     t \<noteq> EndOfInput \<and> t \<noteq> IntegerLiteral \<and> t \<noteq> Identifier \<and>
     (L2 = L \<or> (next_ch = CHR ''='' \<and> L2 = L\<lparr>m_pos := m_pos L + 1\<rparr>))"
  by (auto simp: operator_switch_def split: if_splits)

lemma dispatch_emitted:
  assumes "less_size (m_start L) (length (m_source L))"
    and "next_ch = CHR ''='' \<longrightarrow> less_size (m_pos L) (length (m_source L))"
  shows "\<exists>t L'. dispatch ch next_ch L = Inr (t, L') \<and> emitted L t L'"
proof (cases "isalpha ch")
  case True
  with identifier_emitted [OF assms(1)] show ?thesis
    by (simp add: dispatch_def)
next
  case False
  show ?thesis
  proof (cases "isnumber ch")
    case True
    with False number_emitted [OF assms(1)] show ?thesis
      by (simp add: dispatch_def)
  next
    case num: False
    obtain t L2 where sw: "operator_switch ch next_ch L = (t, L2)"
      by (cases "operator_switch ch next_ch L")
    from operator_switch_cases [OF sw] assms(2) remaining_step [of L]
    have "m_source L2 = m_source L" "m_start L2 = m_start L" "remaining L2 \<le> remaining L"
      "t \<noteq> EndOfInput"
      by auto
    with False num sw to_size_t_less [OF assms(1)] show ?thesis
      by (auto simp: dispatch_def substr_def emitted_def mk_token_def)
  qed
qed

text \<open>What every call of the loop of \<open>next\<close> returns, whatever the length of the source.\<close>

definition returned :: "Lexer \<Rightarrow> Token \<Rightarrow> Lexer \<Rightarrow> bool" where
  "returned L t L' \<longleftrightarrow>
     m_source L' = m_source L \<and> line t = 0 \<and> column t = 0 \<and>
     (if type t = EndOfInput
      then t = mk_token EndOfInput [] \<and>
           \<not> less_size (m_pos L') (length (m_source L))
      else less_size (m_pos L) (length (m_source L)) \<and> remaining L' < remaining L)"

lemma slash_not_space: "\<not> is_space CHR ''/''"
  by (simp add: is_space_def)

text \<open>The four ways through the body of the loop of \<open>next\<close>.\<close>

lemma next_loop_end:
  "\<not> less_size (m_pos L) (length (m_source L)) \<Longrightarrow>
     next_loop L = Inr (mk_token EndOfInput [], L)"
  by (subst next_loop.simps) simp

lemma next_loop_space:
  "less_size (m_pos L) (length (m_source L)) \<Longrightarrow>
   is_space (m_source L ! to_size_t (m_pos L)) \<Longrightarrow>
     next_loop L = next_loop (L\<lparr>m_start := m_pos L, m_pos := m_pos L + 1\<rparr>)"
  by (subst next_loop.simps) (simp add: Let_def)

lemma next_loop_comment:
  "less_size (m_pos L) (length (m_source L)) \<Longrightarrow>
   m_source L ! to_size_t (m_pos L) = CHR ''/'' \<Longrightarrow>
   less_size (m_pos L + 1) (length (m_source L)) \<Longrightarrow>
   m_source L ! to_size_t (m_pos L + 1) = CHR ''/'' \<Longrightarrow>
     next_loop L =
       next_loop (comment_loop (L\<lparr>m_start := m_pos L, m_pos := m_pos L + 1\<rparr>))"
  by (subst next_loop.simps) (simp add: Let_def slash_not_space)

lemma next_loop_dispatch:
  "less_size (m_pos L) (length (m_source L)) \<Longrightarrow>
   \<not> is_space (m_source L ! to_size_t (m_pos L)) \<Longrightarrow>
   \<not> (m_source L ! to_size_t (m_pos L) = CHR ''/'' \<and>
      less_size (m_pos L + 1) (length (m_source L)) \<and>
      m_source L ! to_size_t (m_pos L + 1) = CHR ''/'') \<Longrightarrow>
     next_loop L =
       dispatch (m_source L ! to_size_t (m_pos L))
         (if less_size (m_pos L + 1) (length (m_source L))
          then m_source L ! to_size_t (m_pos L + 1) else CHR 0x00)
         (L\<lparr>m_start := m_pos L, m_pos := m_pos L + 1\<rparr>)"
  by (subst next_loop.simps) (auto simp: Let_def)

lemma next_loop_induct [case_names End Space Comment Dispatch]:
  assumes "\<And>L. \<not> less_size (m_pos L) (length (m_source L)) \<Longrightarrow> P L"
    and "\<And>L. less_size (m_pos L) (length (m_source L)) \<Longrightarrow>
      is_space (m_source L ! to_size_t (m_pos L)) \<Longrightarrow>
      P (L\<lparr>m_start := m_pos L, m_pos := m_pos L + 1\<rparr>) \<Longrightarrow> P L"
    and "\<And>L. less_size (m_pos L) (length (m_source L)) \<Longrightarrow>
      m_source L ! to_size_t (m_pos L) = CHR ''/'' \<Longrightarrow>
      less_size (m_pos L + 1) (length (m_source L)) \<Longrightarrow>
      m_source L ! to_size_t (m_pos L + 1) = CHR ''/'' \<Longrightarrow>
      P (comment_loop (L\<lparr>m_start := m_pos L, m_pos := m_pos L + 1\<rparr>)) \<Longrightarrow> P L"
    and "\<And>L. less_size (m_pos L) (length (m_source L)) \<Longrightarrow>
      \<not> is_space (m_source L ! to_size_t (m_pos L)) \<Longrightarrow>
      \<not> (m_source L ! to_size_t (m_pos L) = CHR ''/'' \<and>
         less_size (m_pos L + 1) (length (m_source L)) \<and>
         m_source L ! to_size_t (m_pos L + 1) = CHR ''/'') \<Longrightarrow> P L"
  shows "P L"
proof (induction L rule: next_loop.induct)
  case (1 L)
  let ?src = "m_source L"
  let ?ch = "?src ! to_size_t (m_pos L)"
  let ?next_ch = "if less_size (m_pos L + 1) (length ?src)
    then ?src ! to_size_t (m_pos L + 1) else CHR 0x00"
  let ?L1 = "L\<lparr>m_start := m_pos L, m_pos := m_pos L + 1\<rparr>"
  show ?case
  proof (cases "less_size (m_pos L) (length ?src)")
    case False
    then show ?thesis by (rule assms(1))
  next
    case True
    show ?thesis
    proof (cases "is_space ?ch")
      case sp: True
      from True sp "1.IH"(1) [OF refl True refl refl refl sp] show ?thesis
        by (rule assms(2))
    next
      case nsp: False
      show ?thesis
      proof (cases "?ch = CHR ''/'' \<and> less_size (m_pos ?L1) (length ?src) \<and>
          ?next_ch = CHR ''/''")
        case com: True
        then have c: "?ch = CHR ''/''" "less_size (m_pos L + 1) (length ?src)"
          "?src ! to_size_t (m_pos L + 1) = CHR ''/''"
          by (simp_all split: if_splits)
        from True c "1.IH"(2) [OF refl True refl refl refl nsp com] show ?thesis
          by (rule assms(3))
      next
        case ncom: False
        then have "\<not> (?ch = CHR ''/'' \<and> less_size (m_pos L + 1) (length ?src) \<and>
            ?src ! to_size_t (m_pos L + 1) = CHR ''/'')"
          by auto
        with True nsp show ?thesis
          by (rule assms(4))
      qed
    qed
  qed
qed

lemma next_loop_returned: "\<exists>t L'. next_loop L = Inr (t, L') \<and> returned L t L'"
proof (induction L rule: next_loop_induct)
  case (End L)
  then show ?case
    by (simp add: next_loop_end returned_def mk_token_def)
next
  case (Space L)
  then obtain t L' where r: "next_loop (L\<lparr>m_start := m_pos L, m_pos := m_pos L + 1\<rparr>) =
      Inr (t, L')" "returned (L\<lparr>m_start := m_pos L, m_pos := m_pos L + 1\<rparr>) t L'"
    by blast
  from r(2) Space(1) remaining_step_start [OF Space(1), of "m_pos L"]
  have "returned L t L'"
    by (auto simp: returned_def)
  with r(1) Space(1,2) show ?case
    by (simp add: next_loop_space)
next
  case (Comment L)
  let ?L1 = "L\<lparr>m_start := m_pos L, m_pos := m_pos L + 1\<rparr>"
  from Comment obtain t L' where r: "next_loop (comment_loop ?L1) = Inr (t, L')"
    "returned (comment_loop ?L1) t L'"
    by blast
  have "remaining (comment_loop ?L1) < remaining L"
    using comment_loop_remaining [of ?L1] remaining_step [of ?L1] Comment(3)
      remaining_step_start [OF Comment(1), of "m_pos L"]
    by simp
  with r(2) Comment(1) have "returned L t L'"
    by (auto simp: returned_def comment_loop_source)
  with r(1) Comment(1-4) show ?case
    by (simp add: next_loop_comment)
next
  case (Dispatch L)
  let ?src = "m_source L"
  let ?ch = "?src ! to_size_t (m_pos L)"
  let ?next_ch = "if less_size (m_pos L + 1) (length ?src)
    then ?src ! to_size_t (m_pos L + 1) else CHR 0x00"
  let ?L1 = "L\<lparr>m_start := m_pos L, m_pos := m_pos L + 1\<rparr>"
  have "less_size (m_start ?L1) (length (m_source ?L1))"
    "?next_ch = CHR ''='' \<longrightarrow> less_size (m_pos ?L1) (length (m_source ?L1))"
    using Dispatch(1) by simp_all
  from dispatch_emitted [OF this, of ?ch]
  obtain t L' where r: "dispatch ?ch ?next_ch ?L1 = Inr (t, L')" "emitted ?L1 t L'"
    by blast
  from r(2) Dispatch(1) remaining_step_start [OF Dispatch(1), of "m_pos L"]
  have "returned L t L'"
    by (auto simp: returned_def emitted_def)
  with r(1) show ?case
    using next_loop_dispatch [OF Dispatch] by simp
qed

subsection \<open>Repeated calls\<close>

lemma next_returned: "\<exists>t L'. next L = Inr (t, L') \<and> returned L t L'"
proof (cases "length (m_source L) = 0")
  case True
  then show ?thesis
    by (simp add: next_def returned_def mk_token_def less_size_def)
next
  case False
  then show ?thesis
    using next_loop_returned [of L] by (simp add: next_def)
qed

lemma next_returnedD: "next L = Inr (t, L') \<Longrightarrow> returned L t L'"
  using next_returned [of L] by auto

lemma next_not_Inl: "next L \<noteq> Inl e"
  using next_returned [of L] by auto

lemma next_source: "next L = Inr (t, L') \<Longrightarrow> m_source L' = m_source L"
  by (drule next_returnedD) (simp add: returned_def)

text \<open>
  A caller that asks the same scanner again and again: \<open>next_n n L\<close> is what call
  number \<open>n + 1\<close> returns, with the scanner after it.
\<close>

fun next_n :: "nat \<Rightarrow> Lexer \<Rightarrow> error + Token \<times> Lexer" where
  "next_n 0 L = next L"
| "next_n (Suc n) L = (case next L of Inl e \<Rightarrow> Inl e | Inr (t, L') \<Rightarrow> next_n n L')"

text \<open>
  The consumer loop
  \<^verbatim>\<open>for (auto t = lexer.next(); t.type != TokenType::EndOfInput; t = lexer.next())\<close>
  of \<^verbatim>\<open>main\<close>: every token that \<^verbatim>\<open>next\<close> returns up to the first
  \<^verbatim>\<open>EndOfInput\<close>, that one included, each with the scanner after the call.
\<close>

function tokenize :: "Lexer \<Rightarrow> error + (Token \<times> Lexer) list" where
  "tokenize L =
     (case next L of
        Inl e \<Rightarrow> Inl e
      | Inr (t, L') \<Rightarrow>
          if type t = EndOfInput then Inr [(t, L')]
          else (case tokenize L' of
                  Inl e \<Rightarrow> Inl e
                | Inr r \<Rightarrow> Inr ((t, L') # r)))"
  by pat_completeness auto
termination
proof (relation "measure remaining")
  show "wf (measure remaining)"
    by simp
next
  fix L :: Lexer and x t L'
  assume "next L = Inr x" and "(t, L') = x" and "type t \<noteq> EndOfInput"
  then have "returned L t L'"
    by (auto dest: next_returnedD)
  with \<open>type t \<noteq> EndOfInput\<close> show "(L', L) \<in> measure remaining"
    by (auto simp: returned_def)
qed

declare tokenize.simps [simp del]

definition tokens :: "string \<Rightarrow> error + Token list" where
  "tokens source =
     (case tokenize (new_Lexer source) of
        Inl e \<Rightarrow> Inl e
      | Inr r \<Rightarrow> Inr (map fst r))"

subsection \<open>Sources that fit \<^verbatim>\<open>int\<close>: what the inner loops compute\<close>

lemma to_size_t_nonneg: "0 \<le> sint i \<Longrightarrow> to_size_t i = nat (sint i)"
  by (simp add: to_size_t_def)

lemma to_size_t_of_nat: "n \<le> 2147483647 \<Longrightarrow> to_size_t (of_nat n) = n"
  by (simp add: to_size_t_def sint_of_nat32)

lemma less_size_of_nat: "n \<le> 2147483647 \<Longrightarrow> less_size (of_nat n) m \<longleftrightarrow> n < m"
  by (simp add: less_size_def sint_of_nat32)

lemma of_nat_diff32: "of_nat (s + n) - (of_nat s :: int32) = of_nat n"
  by simp

lemma run_le: "p \<le> length xs \<Longrightarrow> p + length (takeWhile P (drop p xs)) \<le> length xs"
  using length_takeWhile_le [of P "drop p xs"] by simp

lemma run_Cons:
  assumes "p < length xs" and "P (xs ! p)"
  shows "takeWhile P (drop p xs) = xs ! p # takeWhile P (drop (Suc p) xs)"
  using assms by (simp add: Cons_nth_drop_Suc [symmetric])

lemma run_Nil:
  assumes "\<not> (p < length xs \<and> P (xs ! p))"
  shows "takeWhile P (drop p xs) = []"
proof (cases "p < length xs")
  case True
  with assms show ?thesis
    by (simp add: Cons_nth_drop_Suc [symmetric])
next
  case False
  then show ?thesis by simp
qed

lemma take_run: "take (length (takeWhile P xs)) xs = takeWhile P xs"
  by (simp add: takeWhile_eq_take [symmetric])

text \<open>
  The loops on a source that fits \<^verbatim>\<open>int\<close>: from position \<open>q\<close> the identifier scan
  stops after the longest run of alphanumeric characters, the number scan after the
  longest run of digits, and the comment loop before the next line feed.
\<close>

lemma identifier_loop_at:
  assumes "length (m_source L) \<le> 2147483647" and "q \<le> length (m_source L)"
    and "m_pos L = of_nat q"
  shows "identifier_loop L =
     L\<lparr>m_pos := of_nat (q + length (takeWhile isalnum (drop q (m_source L))))\<rparr>"
  using assms
proof (induction L arbitrary: q rule: identifier_loop.induct)
  case (1 L)
  let ?src = "m_source L"
  from "1.prems" have q: "q \<le> 2147483647"
    by simp
  have ls: "less_size (m_pos L) (length ?src) \<longleftrightarrow> q < length ?src"
    and ix: "to_size_t (m_pos L) = q"
    using q "1.prems"(3) by (simp_all add: less_size_of_nat to_size_t_of_nat)
  show ?case
  proof (cases "q < length ?src \<and> isalnum (?src ! q)")
    case True
    let ?L1 = "L\<lparr>m_pos := m_pos L + 1\<rparr>"
    have "identifier_loop ?L1 =
        ?L1\<lparr>m_pos := of_nat (Suc q + length (takeWhile isalnum (drop (Suc q) (m_source ?L1))))\<rparr>"
      using True "1.prems" ls ix by (intro "1.IH") simp_all
    moreover have "identifier_loop L = identifier_loop ?L1"
      using True ls ix by (subst identifier_loop.simps) simp
    ultimately show ?thesis
      using True by (simp add: run_Cons)
  next
    case False
    then have "takeWhile isalnum (drop q ?src) = []"
      by (rule run_Nil)
    moreover have "identifier_loop L = L"
      using False ls ix by (subst identifier_loop.simps) auto
    ultimately show ?thesis
      using "1.prems"(3) by simp
  qed
qed

lemma number_loop_at:
  assumes "length (m_source L) \<le> 2147483647" and "q \<le> length (m_source L)"
    and "m_pos L = of_nat q"
  shows "number_loop L =
     L\<lparr>m_pos := of_nat (q + length (takeWhile isnumber (drop q (m_source L))))\<rparr>"
  using assms
proof (induction L arbitrary: q rule: number_loop.induct)
  case (1 L)
  let ?src = "m_source L"
  from "1.prems" have q: "q \<le> 2147483647"
    by simp
  have ls: "less_size (m_pos L) (length ?src) \<longleftrightarrow> q < length ?src"
    and ix: "to_size_t (m_pos L) = q"
    using q "1.prems"(3) by (simp_all add: less_size_of_nat to_size_t_of_nat)
  show ?case
  proof (cases "q < length ?src \<and> isnumber (?src ! q)")
    case True
    let ?L1 = "L\<lparr>m_pos := m_pos L + 1\<rparr>"
    have "number_loop ?L1 =
        ?L1\<lparr>m_pos := of_nat (Suc q + length (takeWhile isnumber (drop (Suc q) (m_source ?L1))))\<rparr>"
      using True "1.prems" ls ix by (intro "1.IH") simp_all
    moreover have "number_loop L = number_loop ?L1"
      using True ls ix by (subst number_loop.simps) simp
    ultimately show ?thesis
      using True by (simp add: run_Cons)
  next
    case False
    then have "takeWhile isnumber (drop q ?src) = []"
      by (rule run_Nil)
    moreover have "number_loop L = L"
      using False ls ix by (subst number_loop.simps) auto
    ultimately show ?thesis
      using "1.prems"(3) by simp
  qed
qed

lemma comment_loop_at:
  assumes "m_pos L = of_nat q"
    and "Suc q + length (takeWhile (\<lambda>c. c \<noteq> CHR 0x0A) (drop (Suc q) (m_source L)))
      \<le> 2147483647"
  shows "comment_loop L =
     L\<lparr>m_pos := of_nat (Suc q +
       length (takeWhile (\<lambda>c. c \<noteq> CHR 0x0A) (drop (Suc q) (m_source L))))\<rparr>"
  using assms
proof (induction L arbitrary: q rule: comment_loop.induct)
  case (1 L)
  let ?src = "m_source L"
  let ?P = "\<lambda>c. c \<noteq> CHR 0x0A"
  let ?L1 = "L\<lparr>m_pos := m_pos L + 1\<rparr>"
  from "1.prems" have q: "Suc q \<le> 2147483647"
    by simp
  have p1: "m_pos ?L1 = of_nat (Suc q)"
    using "1.prems"(1) by simp
  have ls: "less_size (m_pos ?L1) (length ?src) \<longleftrightarrow> Suc q < length ?src"
    and ix: "to_size_t (m_pos ?L1) = Suc q"
    unfolding p1 using q by (simp_all only: less_size_of_nat to_size_t_of_nat)
  show ?case
  proof (cases "Suc q < length ?src \<and> ?src ! Suc q \<noteq> CHR 0x0A")
    case True
    then have r: "takeWhile ?P (drop (Suc q) ?src) =
        ?src ! Suc q # takeWhile ?P (drop (Suc (Suc q)) ?src)"
      by (intro run_Cons) simp_all
    have c: "less_size (m_pos ?L1) (length (m_source ?L1)) \<and>
        m_source ?L1 ! to_size_t (m_pos ?L1) \<noteq> CHR 0x0A"
      using True ls ix by simp
    have "comment_loop ?L1 =
        ?L1\<lparr>m_pos := of_nat (Suc (Suc q) +
          length (takeWhile ?P (drop (Suc (Suc q)) (m_source ?L1))))\<rparr>"
      using "1.prems"(2) by (intro "1.IH" [OF refl c]) (simp_all add: p1 r)
    moreover have "comment_loop L = comment_loop ?L1"
      using c by (subst comment_loop.simps) (simp add: Let_def)
    ultimately show ?thesis
      by (simp add: r)
  next
    case False
    then have "takeWhile ?P (drop (Suc q) ?src) = []"
      by (intro run_Nil) simp
    moreover have "comment_loop L = ?L1"
      using False ls ix by (subst comment_loop.simps) (auto simp: Let_def)
    ultimately show ?thesis
      using "1.prems"(1) by simp
  qed
qed

lemma take_one: "p < length xs \<Longrightarrow> take (Suc 0) (drop p xs) = [xs ! p]"
  by (simp add: take_Suc_conv_app_nth)

lemma take_two: "Suc p < length xs \<Longrightarrow> take 2 (drop p xs) = [xs ! p, xs ! Suc p]"
  by (simp add: numeral_2_eq_2 take_Suc_conv_app_nth)

lemma digit_not_alpha: "isnumber c \<Longrightarrow> \<not> isalpha c"
  by (auto simp: isnumber_def isalpha_def less_eq_char_def)

lemma alpha_not_space: "isalpha c \<Longrightarrow> \<not> is_space c \<and> c \<noteq> CHR ''/''"
  by (auto simp: isalpha_def is_space_def less_eq_char_def)

lemma digit_not_space: "isnumber c \<Longrightarrow> \<not> is_space c \<and> c \<noteq> CHR ''/''"
  by (auto simp: isnumber_def is_space_def less_eq_char_def)

lemma substr_at:
  assumes "s \<le> e" and "e \<le> length src" and "length src \<le> 2147483647"
  shows "substr src (to_size_t (of_nat s)) (to_size_t (of_nat e - of_nat s)) =
     Inr (take (e - s) (drop s src))"
proof -
  have "(of_nat e :: int32) - of_nat s = of_nat (e - s)"
    using assms(1) by simp
  moreover have "to_size_t (of_nat s) = s" "to_size_t (of_nat (e - s)) = e - s"
    using assms by (simp_all only: to_size_t_of_nat)
  ultimately show ?thesis
    using assms by (simp add: substr_def)
qed

text \<open>
  The token that the dispatch returns at position \<open>s\<close> of a source that fits
  \<^verbatim>\<open>int\<close>. The scanner is the one after \<^verbatim>\<open>m_start = m_pos++\<close>.
\<close>

lemma identifier_at:
  assumes len: "length (m_source L) \<le> 2147483647" and s: "s < length (m_source L)"
    and a: "isalpha (m_source L ! s)"
  defines "lexeme \<equiv> takeWhile isalnum (drop s (m_source L))"
  shows "identifier (L\<lparr>m_start := of_nat s, m_pos := of_nat s + 1\<rparr>) =
     Inr (mk_token (case keywordMap lexeme of Some k \<Rightarrow> k | None \<Rightarrow> Identifier) lexeme,
          L\<lparr>m_start := of_nat s, m_pos := of_nat (s + length lexeme)\<rparr>)"
proof -
  let ?src = "m_source L"
  let ?L1 = "L\<lparr>m_start := of_nat s, m_pos := of_nat s + 1\<rparr>"
  define e where "e = s + length lexeme"
  have lex: "lexeme = ?src ! s # takeWhile isalnum (drop (Suc s) ?src)"
    unfolding lexeme_def using s a by (intro run_Cons) (simp_all add: isalnum_def)
  have e: "e = Suc s + length (takeWhile isalnum (drop (Suc s) ?src))"
    unfolding e_def lex by simp
  have le: "s \<le> e" "e \<le> length ?src"
    using run_le [of "Suc s" ?src isalnum] s unfolding e by simp_all
  have "identifier_loop ?L1 =
      ?L1\<lparr>m_pos := of_nat (Suc s + length (takeWhile isalnum (drop (Suc s) (m_source ?L1))))\<rparr>"
    using len s by (intro identifier_loop_at) simp_all
  then have loop: "identifier_loop ?L1 = L\<lparr>m_start := of_nat s, m_pos := of_nat e\<rparr>"
    unfolding e by simp
  have "take (e - s) (drop s ?src) = lexeme"
    using take_run [of isalnum "drop s ?src"] unfolding lexeme_def [symmetric] e_def by simp
  with substr_at [OF le len]
  have "substr ?src (to_size_t (of_nat s)) (to_size_t (of_nat e - of_nat s)) = Inr lexeme"
    by simp
  then show ?thesis
    unfolding identifier_def loop Let_def e_def [symmetric]
    by (simp split: option.splits)
qed

lemma number_at:
  assumes len: "length (m_source L) \<le> 2147483647" and s: "s < length (m_source L)"
    and a: "isnumber (m_source L ! s)"
  defines "digits \<equiv> takeWhile isnumber (drop s (m_source L))"
  shows "number (L\<lparr>m_start := of_nat s, m_pos := of_nat s + 1\<rparr>) =
     Inr (mk_token IntegerLiteral digits,
          L\<lparr>m_start := of_nat s, m_pos := of_nat (s + length digits)\<rparr>)"
proof -
  let ?src = "m_source L"
  let ?L1 = "L\<lparr>m_start := of_nat s, m_pos := of_nat s + 1\<rparr>"
  define e where "e = s + length digits"
  have lex: "digits = ?src ! s # takeWhile isnumber (drop (Suc s) ?src)"
    unfolding digits_def using s a by (intro run_Cons)
  have e: "e = Suc s + length (takeWhile isnumber (drop (Suc s) ?src))"
    unfolding e_def lex by simp
  have le: "s \<le> e" "e \<le> length ?src"
    using run_le [of "Suc s" ?src isnumber] s unfolding e by simp_all
  have "number_loop ?L1 =
      ?L1\<lparr>m_pos := of_nat (Suc s + length (takeWhile isnumber (drop (Suc s) (m_source ?L1))))\<rparr>"
    using len s by (intro number_loop_at) simp_all
  then have loop: "number_loop ?L1 = L\<lparr>m_start := of_nat s, m_pos := of_nat e\<rparr>"
    unfolding e by simp
  have "take (e - s) (drop s ?src) = digits"
    using take_run [of isnumber "drop s ?src"] unfolding digits_def [symmetric] e_def by simp
  with substr_at [OF le len]
  have "substr ?src (to_size_t (of_nat s)) (to_size_t (of_nat e - of_nat s)) = Inr digits"
    by simp
  then show ?thesis
    unfolding number_def loop Let_def e_def [symmetric]
    by simp
qed

lemma operator_at:
  assumes len: "length (m_source L) \<le> 2147483647" and s: "s < length (m_source L)"
    and ch: "\<not> isalpha ch" "\<not> isnumber ch"
    and sw: "operator_switch ch next_ch (L\<lparr>m_start := of_nat s, m_pos := of_nat s + 1\<rparr>) =
      (k, L2)"
    and two: "next_ch = CHR ''='' \<longrightarrow> Suc s < length (m_source L)"
  shows "dispatch ch next_ch (L\<lparr>m_start := of_nat s, m_pos := of_nat s + 1\<rparr>) =
     (if L2 = L\<lparr>m_start := of_nat s, m_pos := of_nat s + 1\<rparr>
      then Inr (mk_token k (take 1 (drop s (m_source L))),
                L\<lparr>m_start := of_nat s, m_pos := of_nat (s + 1)\<rparr>)
      else Inr (mk_token k (take 2 (drop s (m_source L))),
                L\<lparr>m_start := of_nat s, m_pos := of_nat (s + 2)\<rparr>))"
proof -
  let ?src = "m_source L"
  let ?L1 = "L\<lparr>m_start := of_nat s, m_pos := of_nat s + 1\<rparr>"
  from operator_switch_cases [OF sw]
  consider "L2 = ?L1" | "L2 \<noteq> ?L1" "next_ch = CHR ''=''" "L2 = ?L1\<lparr>m_pos := m_pos ?L1 + 1\<rparr>"
    by blast
  then show ?thesis
  proof cases
    case 1
    have "substr ?src (to_size_t (of_nat s)) (to_size_t (of_nat (s + 1) - of_nat s)) =
        Inr (take (s + 1 - s) (drop s ?src))"
      using s len by (intro substr_at) simp_all
    with 1 ch sw show ?thesis
      by (simp add: dispatch_def)
  next
    case 2
    have "substr ?src (to_size_t (of_nat s)) (to_size_t (of_nat (s + 2) - of_nat s)) =
        Inr (take (s + 2 - s) (drop s ?src))"
      using s len two 2(2) by (intro substr_at) simp_all
    with 2 ch sw show ?thesis
      by (simp add: dispatch_def)
  qed
qed

subsection \<open>The skip phase\<close>

text \<open>
  The skip phase, on the text from the position on: \<open>skip_len\<close> counts the characters
  of the white space and of the comments (from \<^verbatim>\<open>//\<close> up to the next line feed or
  the end of the text) that come before the first other character, and \<open>is_skipped\<close>
  says that a text is white space and comments only.
\<close>

function skip_len :: "string \<Rightarrow> nat" where
  "skip_len [] = 0"
| "skip_len (c # cs) =
     (if is_space c then Suc (skip_len cs)
      else (case cs of
              [] \<Rightarrow> 0
            | d # ds \<Rightarrow>
                if c = CHR ''/'' \<and> d = CHR ''/''
                then 2 + length (takeWhile (\<lambda>x. x \<noteq> CHR 0x0A) ds) +
                     skip_len (dropWhile (\<lambda>x. x \<noteq> CHR 0x0A) ds)
                else 0))"
  by pat_completeness auto
termination
  by (relation "measure length")
    (auto simp: less_Suc_eq_le intro: le_trans [OF length_dropWhile_le])

function is_skipped :: "string \<Rightarrow> bool" where
  "is_skipped [] \<longleftrightarrow> True"
| "is_skipped (c # cs) \<longleftrightarrow>
     (if is_space c then is_skipped cs
      else (case cs of
              [] \<Rightarrow> False
            | d # ds \<Rightarrow>
                c = CHR ''/'' \<and> d = CHR ''/'' \<and>
                is_skipped (dropWhile (\<lambda>x. x \<noteq> CHR 0x0A) ds)))"
  by pat_completeness auto
termination
  by (relation "measure length")
    (auto simp: less_Suc_eq_le intro: le_trans [OF length_dropWhile_le])

text \<open>The position of the first character after the position that the skip phase does not pass.\<close>

definition token_start :: "Lexer \<Rightarrow> nat" where
  "token_start L =
     to_size_t (m_pos L) + skip_len (drop (to_size_t (m_pos L)) (m_source L))"

lemma skip_len_space: "is_space c \<Longrightarrow> skip_len (c # cs) = Suc (skip_len cs)"
  by simp

lemma skip_len_comment:
  "skip_len (CHR ''/'' # CHR ''/'' # ds) =
     2 + length (takeWhile (\<lambda>x. x \<noteq> CHR 0x0A) ds) +
     skip_len (dropWhile (\<lambda>x. x \<noteq> CHR 0x0A) ds)"
  by (simp add: slash_not_space)

lemma skip_len_stop:
  "\<not> is_space c \<Longrightarrow> \<not> (c = CHR ''/'' \<and> cs \<noteq> [] \<and> hd cs = CHR ''/'') \<Longrightarrow>
     skip_len (c # cs) = 0"
  by (cases cs) auto

lemma is_skipped_space: "is_space c \<Longrightarrow> is_skipped (c # cs) = is_skipped cs"
  by simp

lemma is_skipped_comment:
  "is_skipped (CHR ''/'' # CHR ''/'' # cs) = is_skipped (dropWhile (\<lambda>x. x \<noteq> CHR 0x0A) cs)"
  by (simp add: slash_not_space)

lemma is_skipped_stop:
  "\<not> is_space c \<Longrightarrow> \<not> (c = CHR ''/'' \<and> cs \<noteq> [] \<and> hd cs = CHR ''/'') \<Longrightarrow>
     \<not> is_skipped (c # cs)"
  by (cases cs) auto

declare skip_len.simps [simp del]
declare is_skipped.simps [simp del]

lemma skip_induct [case_names Nil Space Comment Stop]:
  assumes "P []"
    and "\<And>c cs. is_space c \<Longrightarrow> P cs \<Longrightarrow> P (c # cs)"
    and "\<And>ds. P (dropWhile (\<lambda>x. x \<noteq> CHR 0x0A) ds) \<Longrightarrow> P (CHR ''/'' # CHR ''/'' # ds)"
    and "\<And>c cs. \<not> is_space c \<Longrightarrow>
      \<not> (c = CHR ''/'' \<and> cs \<noteq> [] \<and> hd cs = CHR ''/'') \<Longrightarrow> P (c # cs)"
  shows "P xs"
proof (induction xs rule: skip_len.induct)
  case 1
  show ?case by (rule assms(1))
next
  case (2 c cs)
  show ?case
  proof (cases "is_space c")
    case True
    with "2.IH"(1) show ?thesis
      by (intro assms(2))
  next
    case False
    show ?thesis
    proof (cases "c = CHR ''/'' \<and> cs \<noteq> [] \<and> hd cs = CHR ''/''")
      case True
      then obtain ds where cs: "cs = CHR ''/'' # ds"
        by (cases cs) auto
      from True have "c = CHR ''/'' \<and> CHR ''/'' = CHR ''/''"
        by simp
      from "2.IH"(2) [OF False cs this] True cs show ?thesis
        by (simp add: assms(3))
    next
      case no: False
      with False show ?thesis
        by (rule assms(4))
    qed
  qed
qed

lemma run_split: "length (takeWhile P xs) + length (dropWhile P xs) = length xs"
  by (metis length_append takeWhile_dropWhile_id)

lemma skip_len_le: "skip_len xs \<le> length xs"
proof (induction xs rule: skip_induct)
  case (Comment ds)
  then show ?case
    using run_split [of "\<lambda>x. x \<noteq> CHR 0x0A" ds] by (simp add: skip_len_comment)
qed (simp_all add: skip_len.simps(1) skip_len_space skip_len_stop)

lemma is_skipped_iff: "is_skipped xs \<longleftrightarrow> skip_len xs = length xs"
proof (induction xs rule: skip_induct)
  case (Comment ds)
  then show ?case
    using run_split [of "\<lambda>x. x \<noteq> CHR 0x0A" ds]
    by (auto simp: skip_len_comment is_skipped_comment)
qed (simp_all add: skip_len.simps(1) is_skipped.simps(1) skip_len_space skip_len_stop
    is_skipped_space is_skipped_stop)

lemma dropWhile_take_run:
  "length (takeWhile P xs) \<le> n \<Longrightarrow>
     dropWhile P (take n xs) = take (n - length (takeWhile P xs)) (dropWhile P xs)"
proof (induction xs arbitrary: n)
  case Nil
  then show ?case by simp
next
  case (Cons x xs)
  show ?case
  proof (cases n)
    case 0
    with Cons.prems show ?thesis by (simp split: if_splits)
  next
    case (Suc m)
    with Cons show ?thesis by (auto split: if_splits)
  qed
qed

lemma is_skipped_take: "is_skipped (take (skip_len xs) xs)"
proof (induction xs rule: skip_induct)
  case (Comment ds)
  let ?P = "\<lambda>x. x \<noteq> CHR 0x0A"
  let ?k = "length (takeWhile ?P ds)"
  let ?m = "skip_len (dropWhile ?P ds)"
  have "dropWhile ?P (take (?k + ?m) ds) = take (?k + ?m - ?k) (dropWhile ?P ds)"
    by (rule dropWhile_take_run) simp
  with Comment have "is_skipped (dropWhile ?P (take (?k + ?m) ds))"
    by simp
  then have "is_skipped (CHR ''/'' # CHR ''/'' # take (?k + ?m) ds)"
    by (simp only: is_skipped_comment)
  then show ?case
    by (simp add: skip_len_comment)
qed (simp_all add: skip_len.simps(1) is_skipped.simps(1) skip_len_space skip_len_stop
    is_skipped_space)

lemma skip_len_stops:
  assumes "skip_len xs < length xs"
  shows "\<not> is_space (xs ! skip_len xs) \<and>
    \<not> (xs ! skip_len xs = CHR ''/'' \<and> Suc (skip_len xs) < length xs \<and>
       xs ! Suc (skip_len xs) = CHR ''/'')"
  using assms
proof (induction xs rule: skip_induct)
  case Nil
  then show ?case by simp
next
  case (Space c cs)
  then show ?case by (simp add: skip_len_space)
next
  case (Comment ds)
  let ?P = "\<lambda>x. x \<noteq> CHR 0x0A"
  let ?k = "length (takeWhile ?P ds)"
  let ?m = "skip_len (dropWhile ?P ds)"
  have ds: "ds = takeWhile ?P ds @ dropWhile ?P ds"
    by simp
  have nth: "ds ! (?k + i) = dropWhile ?P ds ! i" for i
    by (metis ds nth_append_length_plus)
  from Comment.prems run_split [of ?P ds] have m: "?m < length (dropWhile ?P ds)"
    by (simp add: skip_len_comment)
  from Comment.IH [OF m] nth [of ?m] nth [of "Suc ?m"] m run_split [of ?P ds]
  show ?case
    by (simp add: skip_len_comment)
next
  case (Stop c cs)
  then show ?case
    by (cases cs) (auto simp: skip_len_stop)
qed

subsection \<open>Where a call dispatches\<close>

lemma less_size_succ:
  assumes "p \<le> 2147483647" and "less_size (of_nat p + 1) n"
  shows "Suc p \<le> 2147483647" and "Suc p < n" and "to_size_t (of_nat p + 1) = Suc p"
proof -
  have p: "sint (of_nat p :: int32) = int p"
    using assms(1) by (rule sint_of_nat32)
  from assms(2) have "0 \<le> sint (of_nat p + 1 :: int32)"
    by (simp add: less_size_def)
  with p have "int p \<noteq> 2147483647" and s: "sint (of_nat p + 1 :: int32) = int p + 1"
    by (auto simp: sint_succ split: if_splits)
  with assms(1) show "Suc p \<le> 2147483647"
    by simp
  from assms(2) s show "Suc p < n"
    by (simp add: less_size_def)
  from s show "to_size_t (of_nat p + 1) = Suc p"
    by (simp add: to_size_t_def)
qed

lemma less_size_succ_iff:
  "Suc p \<le> 2147483647 \<Longrightarrow> less_size (of_nat p + 1) n \<longleftrightarrow> Suc p < n"
  using less_size_of_nat [of "Suc p" n] by (simp add: add.commute)

text \<open>
  Every call dispatches at the first character that the skip phase does not pass: when
  that position is in the source and in the range of \<^verbatim>\<open>int\<close>, the loop of \<open>next\<close>
  returns what the dispatch returns there.
\<close>

lemma next_loop_dispatches_at:
  assumes "m_pos L = of_nat p" and "s = p + skip_len (drop p (m_source L))"
    and "s < length (m_source L)" and "s \<le> 2147483647"
  shows "next_loop L =
     dispatch (m_source L ! s)
       (if less_size (of_nat s + 1) (length (m_source L))
        then m_source L ! to_size_t (of_nat s + 1) else CHR 0x00)
       (L\<lparr>m_start := of_nat s, m_pos := of_nat s + 1\<rparr>)"
  using assms
proof (induction L arbitrary: p rule: next_loop_induct)
  case (End L)
  from End.prems have p: "p \<le> 2147483647" "p < length (m_source L)"
    by simp_all
  with End.hyps End.prems(1) show ?case
    by (simp add: less_size_of_nat)
next
  case (Space L)
  let ?src = "m_source L"
  let ?L1 = "L\<lparr>m_start := m_pos L, m_pos := m_pos L + 1\<rparr>"
  from Space.prems have p: "p \<le> 2147483647"
    by simp
  with Space.hyps(1,2) Space.prems(1) have pl: "p < length ?src" and sp: "is_space (?src ! p)"
    by (simp_all add: less_size_of_nat to_size_t_of_nat)
  then have "skip_len (drop p ?src) = Suc (skip_len (drop (Suc p) ?src))"
    by (simp add: Cons_nth_drop_Suc [symmetric] skip_len_space)
  with Space.prems(2) have s: "s = Suc p + skip_len (drop (Suc p) (m_source ?L1))"
    by simp
  have "m_pos ?L1 = of_nat (Suc p)"
    using Space.prems(1) by simp
  from Space.IH [OF this s] Space.prems(3,4)
  have "next_loop ?L1 =
     dispatch (?src ! s)
       (if less_size (of_nat s + 1) (length ?src)
        then ?src ! to_size_t (of_nat s + 1) else CHR 0x00)
       (L\<lparr>m_start := of_nat s, m_pos := of_nat s + 1\<rparr>)"
    by simp
  with next_loop_space [OF Space.hyps(1,2)] show ?case
    by simp
next
  case (Comment L)
  let ?src = "m_source L"
  let ?L1 = "L\<lparr>m_start := m_pos L, m_pos := m_pos L + 1\<rparr>"
  let ?P = "\<lambda>x. x \<noteq> CHR 0x0A"
  let ?k = "length (takeWhile ?P (drop (Suc (Suc p)) ?src))"
  from Comment.prems have p: "p \<le> 2147483647"
    by simp
  with Comment.hyps(1,2) Comment.prems(1) have pl: "p < length ?src" and c1: "?src ! p = CHR ''/''"
    by (simp_all add: less_size_of_nat to_size_t_of_nat)
  from Comment.hyps(3,4) Comment.prems(1) less_size_succ [OF p, of "length ?src"]
  have p1: "Suc p < length ?src" and c2: "?src ! Suc p = CHR ''/''"
    by simp_all
  have d: "drop p ?src = CHR ''/'' # CHR ''/'' # drop (Suc (Suc p)) ?src"
    using pl p1 c1 c2 by (simp add: Cons_nth_drop_Suc [symmetric])
  have dq: "dropWhile ?P (drop (Suc (Suc p)) ?src) = drop (Suc (Suc p) + ?k) ?src"
    by (simp add: dropWhile_eq_drop add.commute)
  have s: "s = (Suc (Suc p) + ?k) + skip_len (drop (Suc (Suc p) + ?k) ?src)"
    using Comment.prems(2) unfolding d skip_len_comment dq by simp
  with Comment.prems(4) have k: "Suc (Suc p) + ?k \<le> 2147483647"
    by simp
  have "m_pos ?L1 = of_nat (Suc p)"
    using Comment.prems(1) by simp
  from comment_loop_at [OF this] k
  have C: "comment_loop ?L1 = ?L1\<lparr>m_pos := of_nat (Suc (Suc p) + ?k)\<rparr>"
    by simp
  have "next_loop (comment_loop ?L1) =
     dispatch (m_source (comment_loop ?L1) ! s)
       (if less_size (of_nat s + 1) (length (m_source (comment_loop ?L1)))
        then m_source (comment_loop ?L1) ! to_size_t (of_nat s + 1) else CHR 0x00)
       (comment_loop ?L1\<lparr>m_start := of_nat s, m_pos := of_nat s + 1\<rparr>)"
    using s Comment.prems(3,4) by (intro Comment.IH [where p = "Suc (Suc p) + ?k"]) (simp_all add: C)
  with next_loop_comment [OF Comment.hyps(1-4)] show ?case
    by (simp add: C)
next
  case (Dispatch L)
  let ?src = "m_source L"
  from Dispatch.prems have p: "p \<le> 2147483647"
    by simp
  with Dispatch.hyps(1,2) Dispatch.prems(1) have pl: "p < length ?src"
    and ns: "\<not> is_space (?src ! p)"
    by (simp_all add: less_size_of_nat to_size_t_of_nat)
  have d: "drop p ?src = ?src ! p # drop (Suc p) ?src"
    using pl by (simp add: Cons_nth_drop_Suc)
  have "\<not> (?src ! p = CHR ''/'' \<and> drop (Suc p) ?src \<noteq> [] \<and> hd (drop (Suc p) ?src) = CHR ''/'')"
  proof
    assume a: "?src ! p = CHR ''/'' \<and> drop (Suc p) ?src \<noteq> [] \<and>
        hd (drop (Suc p) ?src) = CHR ''/''"
    then have p1: "Suc p < length ?src"
      by simp
    with a have c2: "?src ! Suc p = CHR ''/''"
      by (simp add: hd_drop_conv_nth)
    then have "drop p ?src = CHR ''/'' # CHR ''/'' # drop (Suc (Suc p)) ?src"
      using a pl by (simp add: Cons_nth_drop_Suc [symmetric])
    with Dispatch.prems(2,4) have "Suc p \<le> 2147483647"
      by (simp add: skip_len_comment)
    then have "less_size (of_nat p + 1) (length ?src)" "to_size_t (of_nat p + 1 :: int32) = Suc p"
      using p1 less_size_succ_iff [of p "length ?src"]
        to_size_t_of_nat [of "Suc p"] by (simp_all add: add.commute)
    with Dispatch.hyps(3) Dispatch.prems(1) a c2 p show False
      by (simp add: to_size_t_of_nat)
  qed
  with ns have "skip_len (drop p ?src) = 0"
    unfolding d by (rule skip_len_stop)
  with Dispatch.prems(2) have "s = p"
    by simp
  with next_loop_dispatch [OF Dispatch.hyps] Dispatch.prems(1) p show ?case
    by (simp add: to_size_t_of_nat)
qed

text \<open>
  When only white space and comments remain in a source that fits \<^verbatim>\<open>int\<close>, the loop
  of \<open>next\<close> returns the sentinel with the position at the end of the source.
\<close>

lemma next_loop_reaches_end:
  assumes "length (m_source L) \<le> 2147483647" and "m_pos L = of_nat p"
    and "p \<le> length (m_source L)" and "is_skipped (drop p (m_source L))"
  shows "\<exists>L'. next_loop L = Inr (mk_token EndOfInput [], L') \<and>
     m_source L' = m_source L \<and> m_pos L' = of_nat (length (m_source L)) \<and>
     (L' = L \<or> (\<exists>a. m_start L' = of_nat a \<and> p \<le> a \<and> a < length (m_source L)))"
  using assms
proof (induction L arbitrary: p rule: next_loop_induct)
  case (End L)
  from End.prems have "p \<le> 2147483647"
    by simp
  with End.hyps End.prems(2,3) have "p = length (m_source L)"
    by (simp add: less_size_of_nat)
  with End.hyps End.prems(2) show ?case
    by (simp add: next_loop_end)
next
  case (Space L)
  let ?src = "m_source L"
  let ?L1 = "L\<lparr>m_start := m_pos L, m_pos := m_pos L + 1\<rparr>"
  from Space.prems have p: "p \<le> 2147483647"
    by simp
  with Space.hyps(1,2) Space.prems(2) have pl: "p < length ?src" and sp: "is_space (?src ! p)"
    by (simp_all add: less_size_of_nat to_size_t_of_nat)
  with Space.prems(4) have sk: "is_skipped (drop (Suc p) (m_source ?L1))"
    by (simp add: Cons_nth_drop_Suc [symmetric] is_skipped_space)
  have "m_pos ?L1 = of_nat (Suc p)"
    using Space.prems(2) by simp
  from Space.IH [OF _ this _ sk] Space.prems(1) pl
  obtain L' where r: "next_loop ?L1 = Inr (mk_token EndOfInput [], L')"
    "m_source L' = ?src" "m_pos L' = of_nat (length ?src)"
    "L' = ?L1 \<or> (\<exists>a. m_start L' = of_nat a \<and> Suc p \<le> a \<and> a < length ?src)"
    by auto
  from r(4) Space.prems(2) pl
  have "\<exists>a. m_start L' = of_nat a \<and> p \<le> a \<and> a < length ?src"
    by (auto intro: exI [of _ p])
  with r(1-3) next_loop_space [OF Space.hyps(1,2)] show ?case
    by simp
next
  case (Comment L)
  let ?src = "m_source L"
  let ?L1 = "L\<lparr>m_start := m_pos L, m_pos := m_pos L + 1\<rparr>"
  let ?P = "\<lambda>x. x \<noteq> CHR 0x0A"
  let ?k = "length (takeWhile ?P (drop (Suc (Suc p)) ?src))"
  from Comment.prems have p: "p \<le> 2147483647"
    by simp
  with Comment.hyps(1,2) Comment.prems(2) have pl: "p < length ?src" and c1: "?src ! p = CHR ''/''"
    by (simp_all add: less_size_of_nat to_size_t_of_nat)
  from Comment.hyps(3,4) Comment.prems(2) less_size_succ [OF p, of "length ?src"]
  have p1: "Suc p < length ?src" and c2: "?src ! Suc p = CHR ''/''"
    by simp_all
  have d: "drop p ?src = CHR ''/'' # CHR ''/'' # drop (Suc (Suc p)) ?src"
    using pl p1 c1 c2 by (simp add: Cons_nth_drop_Suc [symmetric])
  have dq: "dropWhile ?P (drop (Suc (Suc p)) ?src) = drop (Suc (Suc p) + ?k) ?src"
    by (simp add: dropWhile_eq_drop add.commute)
  have k: "Suc (Suc p) + ?k \<le> length ?src"
    using run_le [of "Suc (Suc p)" ?src ?P] p1 by simp
  have "m_pos ?L1 = of_nat (Suc p)"
    using Comment.prems(2) by simp
  from comment_loop_at [OF this] k Comment.prems(1)
  have C: "comment_loop ?L1 = ?L1\<lparr>m_pos := of_nat (Suc (Suc p) + ?k)\<rparr>"
    by simp
  have sk: "is_skipped (drop (Suc (Suc p) + ?k) (m_source (comment_loop ?L1)))"
    using Comment.prems(4) unfolding d is_skipped_comment dq by (simp add: C)
  have "m_pos (comment_loop ?L1) = of_nat (Suc (Suc p) + ?k)"
    by (simp add: C)
  from Comment.IH [OF _ this _ sk] Comment.prems(1) k
  obtain L' where r: "next_loop (comment_loop ?L1) = Inr (mk_token EndOfInput [], L')"
    "m_source L' = ?src" "m_pos L' = of_nat (length ?src)"
    "L' = comment_loop ?L1 \<or>
      (\<exists>a. m_start L' = of_nat a \<and> Suc (Suc p) + ?k \<le> a \<and> a < length ?src)"
    by (auto simp: C)
  from r(4) Comment.prems(2) pl
  have "\<exists>a. m_start L' = of_nat a \<and> p \<le> a \<and> a < length ?src"
    by (auto simp: comment_loop_start intro: exI [of _ p])
  with r(1-3) next_loop_comment [OF Comment.hyps(1-4)] show ?case
    by simp
next
  case (Dispatch L)
  let ?src = "m_source L"
  from Dispatch.prems have p: "p \<le> 2147483647"
    by simp
  with Dispatch.hyps(1,2) Dispatch.prems(2) have pl: "p < length ?src"
    and ns: "\<not> is_space (?src ! p)"
    by (simp_all add: less_size_of_nat to_size_t_of_nat)
  have d: "drop p ?src = ?src ! p # drop (Suc p) ?src"
    using pl by (simp add: Cons_nth_drop_Suc)
  have "\<not> (?src ! p = CHR ''/'' \<and> drop (Suc p) ?src \<noteq> [] \<and> hd (drop (Suc p) ?src) = CHR ''/'')"
  proof
    assume a: "?src ! p = CHR ''/'' \<and> drop (Suc p) ?src \<noteq> [] \<and>
        hd (drop (Suc p) ?src) = CHR ''/''"
    then have p1: "Suc p < length ?src"
      by simp
    with a have c2: "?src ! Suc p = CHR ''/''"
      by (simp add: hd_drop_conv_nth)
    from p1 Dispatch.prems(1) have "Suc p \<le> 2147483647"
      by simp
    then have "less_size (of_nat p + 1) (length ?src)" "to_size_t (of_nat p + 1 :: int32) = Suc p"
      using p1 less_size_succ_iff [of p "length ?src"]
        to_size_t_of_nat [of "Suc p"] by (simp_all add: add.commute)
    with Dispatch.hyps(3) Dispatch.prems(2) a c2 p show False
      by (simp add: to_size_t_of_nat)
  qed
  with ns have "\<not> is_skipped (drop p ?src)"
    unfolding d by (rule is_skipped_stop)
  with Dispatch.prems(4) show ?case
    by simp
qed

text \<open>A run of white space up to position \<^verbatim>\<open>INT_MAX\<close> of a longer source.\<close>

lemma next_loop_spaces_overflow:
  assumes "m_pos L = of_nat p" and "p \<le> 2147483647"
    and "2147483647 < length (m_source L)"
    and "\<forall>i. p \<le> i \<and> i \<le> 2147483647 \<longrightarrow> is_space (m_source L ! i)"
  shows "next_loop L =
     Inr (mk_token EndOfInput [], L\<lparr>m_start := 2147483647, m_pos := - 2147483648\<rparr>)"
  using assms
proof (induction L arbitrary: p rule: next_loop_induct)
  case (End L)
  then show ?case
    by (simp add: less_size_of_nat)
next
  case (Space L)
  let ?L1 = "L\<lparr>m_start := m_pos L, m_pos := m_pos L + 1\<rparr>"
  show ?case
  proof (cases "p = 2147483647")
    case True
    with Space.prems(1) have "m_pos L = 2147483647"
      by simp
    then have L1: "?L1 = L\<lparr>m_start := 2147483647, m_pos := - 2147483648\<rparr>"
      by simp
    then have "\<not> less_size (m_pos ?L1) (length (m_source ?L1))"
      by (simp add: less_size_def)
    from next_loop_end [OF this] next_loop_space [OF Space.hyps(1,2)] L1 show ?thesis
      by simp
  next
    case False
    with Space.prems have "m_pos ?L1 = of_nat (Suc p)" "Suc p \<le> 2147483647"
      "2147483647 < length (m_source ?L1)"
      "\<forall>i. Suc p \<le> i \<and> i \<le> 2147483647 \<longrightarrow> is_space (m_source ?L1 ! i)"
      by simp_all
    from Space.IH [OF this] next_loop_space [OF Space.hyps(1,2)] show ?thesis
      by simp
  qed
next
  case (Comment L)
  from Comment.hyps(2) Comment.prems(1,2) have "m_source L ! p = CHR ''/''"
    by (simp add: to_size_t_of_nat)
  moreover from Comment.prems(2,4) have "is_space (m_source L ! p)"
    by simp
  ultimately show ?case
    by (simp add: slash_not_space)
next
  case (Dispatch L)
  from Dispatch.hyps(2) Dispatch.prems(1,2) have "\<not> is_space (m_source L ! p)"
    by (simp add: to_size_t_of_nat)
  moreover from Dispatch.prems(2,4) have "is_space (m_source L ! p)"
    by simp
  ultimately show ?case
    by simp
qed

subsection \<open>Sources that fit \<^verbatim>\<open>int\<close>: the token of a call\<close>

lemma to_size_t_neg: "sint i < 0 \<Longrightarrow> 18446744071562067968 \<le> to_size_t i"
  using sint_range32 [of i] by (simp add: to_size_t_def)

lemma token_start_fits:
  assumes "length (m_source L) \<le> 2147483647" and "token_start L < length (m_source L)"
  shows "m_pos L = of_nat (to_size_t (m_pos L))"
    and "token_start L \<le> 2147483647"
    and "to_size_t (m_pos L) \<le> token_start L"
proof -
  have "0 \<le> sint (m_pos L)"
  proof (rule ccontr)
    assume "\<not> 0 \<le> sint (m_pos L)"
    then have "18446744071562067968 \<le> to_size_t (m_pos L)"
      by (intro to_size_t_neg) simp
    with assms show False
      by (simp add: token_start_def)
  qed
  then show "m_pos L = of_nat (to_size_t (m_pos L))"
    by (simp add: to_size_t_def)
  from assms show "token_start L \<le> 2147483647"
    by simp
  show "to_size_t (m_pos L) \<le> token_start L"
    by (simp add: token_start_def)
qed

text \<open>
  In a source that fits \<^verbatim>\<open>int\<close>, a call whose first unskipped position \<open>s\<close> is in
  the source returns what the dispatch returns at \<open>s\<close>.
\<close>

lemma next_dispatches:
  assumes len: "length (m_source L) \<le> 2147483647"
    and s: "token_start L < length (m_source L)"
  shows "next L =
     dispatch (m_source L ! token_start L)
       (if Suc (token_start L) < length (m_source L)
        then m_source L ! Suc (token_start L) else CHR 0x00)
       (L\<lparr>m_start := of_nat (token_start L), m_pos := of_nat (token_start L) + 1\<rparr>)"
proof -
  let ?s = "token_start L"
  note f = token_start_fits [OF len s]
  have "next L = next_loop L"
    using s by (auto simp: next_def)
  also have "\<dots> = dispatch (m_source L ! ?s)
       (if less_size (of_nat ?s + 1) (length (m_source L))
        then m_source L ! to_size_t (of_nat ?s + 1) else CHR 0x00)
       (L\<lparr>m_start := of_nat ?s, m_pos := of_nat ?s + 1\<rparr>)"
    using f(1) _ s f(2) by (rule next_loop_dispatches_at) (simp add: token_start_def)
  also have "(if less_size (of_nat ?s + 1) (length (m_source L))
        then m_source L ! to_size_t (of_nat ?s + 1) else CHR 0x00) =
      (if Suc ?s < length (m_source L) then m_source L ! Suc ?s else CHR 0x00)"
  proof (cases "Suc ?s < length (m_source L)")
    case True
    with len have "Suc ?s \<le> 2147483647"
      by simp
    with True less_size_succ_iff [of ?s "length (m_source L)"]
      to_size_t_of_nat [of "Suc ?s"] show ?thesis
      by (simp add: add.commute)
  next
    case False
    have "\<not> less_size (of_nat ?s + 1) (length (m_source L))"
    proof
      assume "less_size (of_nat ?s + 1) (length (m_source L))"
      from less_size_succ(2) [OF f(2) this] False show False
        by simp
    qed
    with False show ?thesis
      by simp
  qed
  finally show ?thesis .
qed

lemma next_identifier:
  assumes len: "length (m_source L) \<le> 2147483647"
    and s: "token_start L < length (m_source L)"
    and a: "isalpha (m_source L ! token_start L)"
  defines "lexeme \<equiv> takeWhile isalnum (drop (token_start L) (m_source L))"
  shows "next L =
     Inr (mk_token (case keywordMap lexeme of Some k \<Rightarrow> k | None \<Rightarrow> Identifier) lexeme,
          L\<lparr>m_start := of_nat (token_start L),
            m_pos := of_nat (token_start L + length lexeme)\<rparr>)"
  unfolding next_dispatches [OF len s] lexeme_def
  using a identifier_at [OF len s a] by (simp add: dispatch_def)

lemma next_number:
  assumes len: "length (m_source L) \<le> 2147483647"
    and s: "token_start L < length (m_source L)"
    and a: "isnumber (m_source L ! token_start L)"
  defines "digits \<equiv> takeWhile isnumber (drop (token_start L) (m_source L))"
  shows "next L =
     Inr (mk_token IntegerLiteral digits,
          L\<lparr>m_start := of_nat (token_start L),
            m_pos := of_nat (token_start L + length digits)\<rparr>)"
  unfolding next_dispatches [OF len s] digits_def
  using a digit_not_alpha [OF a] number_at [OF len s a] by (simp add: dispatch_def)

lemma next_operator:
  assumes len: "length (m_source L) \<le> 2147483647"
    and s: "token_start L < length (m_source L)"
    and ch: "\<not> isalpha (m_source L ! token_start L)" "\<not> isnumber (m_source L ! token_start L)"
    and sw: "operator_switch (m_source L ! token_start L)
        (if Suc (token_start L) < length (m_source L)
         then m_source L ! Suc (token_start L) else CHR 0x00)
        (L\<lparr>m_start := of_nat (token_start L), m_pos := of_nat (token_start L) + 1\<rparr>) =
      (k, L2)"
  shows "next L =
     (if L2 = L\<lparr>m_start := of_nat (token_start L), m_pos := of_nat (token_start L) + 1\<rparr>
      then Inr (mk_token k [m_source L ! token_start L],
                L\<lparr>m_start := of_nat (token_start L),
                  m_pos := of_nat (token_start L + 1)\<rparr>)
      else Inr (mk_token k [m_source L ! token_start L, m_source L ! Suc (token_start L)],
                L\<lparr>m_start := of_nat (token_start L),
                  m_pos := of_nat (token_start L + 2)\<rparr>))"
proof -
  let ?s = "token_start L"
  let ?nc = "if Suc ?s < length (m_source L) then m_source L ! Suc ?s else CHR 0x00"
  let ?L1 = "L\<lparr>m_start := of_nat ?s, m_pos := of_nat ?s + 1\<rparr>"
  have two: "?nc = CHR ''='' \<longrightarrow> Suc ?s < length (m_source L)"
    by simp
  have one: "take 1 (drop ?s (m_source L)) = [m_source L ! ?s]"
    using s by (simp add: take_one)
  show ?thesis
  proof (cases "L2 = ?L1")
    case True
    with operator_at [OF len s ch sw two] one show ?thesis
      unfolding next_dispatches [OF len s] by simp
  next
    case False
    with operator_switch_cases [OF sw] have "Suc ?s < length (m_source L)"
      by (auto split: if_splits)
    then have "take 2 (drop ?s (m_source L)) = [m_source L ! ?s, m_source L ! Suc ?s]"
      by (rule take_two)
    with False operator_at [OF len s ch sw two] show ?thesis
      unfolding next_dispatches [OF len s] by simp
  qed
qed

lemma next_token:
  assumes len: "length (m_source L) \<le> 2147483647"
    and s: "token_start L < length (m_source L)"
  shows "\<exists>t n. next L =
       Inr (t, L\<lparr>m_start := of_nat (token_start L), m_pos := of_nat (token_start L + n)\<rparr>) \<and>
     type t \<noteq> EndOfInput \<and> 1 \<le> n \<and> token_start L + n \<le> length (m_source L) \<and>
     value t = take n (drop (token_start L) (m_source L))"
proof -
  let ?s = "token_start L" and ?src = "m_source L"
  show ?thesis
  proof (cases "isalpha (?src ! ?s)")
    case True
    let ?lex = "takeWhile isalnum (drop ?s ?src)"
    let ?t = "mk_token (case keywordMap ?lex of Some k \<Rightarrow> k | None \<Rightarrow> Identifier) ?lex"
    have "?lex = ?src ! ?s # takeWhile isalnum (drop (Suc ?s) ?src)"
      using s True by (intro run_Cons) (simp_all add: isalnum_def)
    then have "1 \<le> length ?lex"
      by simp
    moreover have "?s + length ?lex \<le> length ?src"
      using s by (intro run_le) simp
    moreover have "value ?t = take (length ?lex) (drop ?s ?src)"
      by (simp add: mk_token_def take_run)
    moreover have "type ?t \<noteq> EndOfInput"
      by (auto simp: mk_token_def dest: keywordMap_not_special split: option.splits)
    ultimately show ?thesis
      using next_identifier [OF len s True] by blast
  next
    case na: False
    show ?thesis
    proof (cases "isnumber (?src ! ?s)")
      case True
      let ?lex = "takeWhile isnumber (drop ?s ?src)"
      let ?t = "mk_token IntegerLiteral ?lex"
      have "?lex = ?src ! ?s # takeWhile isnumber (drop (Suc ?s) ?src)"
        using s True by (intro run_Cons)
      then have "1 \<le> length ?lex"
        by simp
      moreover have "?s + length ?lex \<le> length ?src"
        using s by (intro run_le) simp
      moreover have "value ?t = take (length ?lex) (drop ?s ?src)"
        by (simp add: mk_token_def take_run)
      moreover have "type ?t \<noteq> EndOfInput"
        by (simp add: mk_token_def)
      ultimately show ?thesis
        using next_number [OF len s True] by blast
    next
      case nd: False
      let ?nc = "if Suc ?s < length ?src then ?src ! Suc ?s else CHR 0x00"
      let ?L1 = "L\<lparr>m_start := of_nat ?s, m_pos := of_nat ?s + 1\<rparr>"
      obtain k L2 where sw: "operator_switch (?src ! ?s) ?nc ?L1 = (k, L2)"
        by (cases "operator_switch (?src ! ?s) ?nc ?L1")
      note n = next_operator [OF len s na nd sw]
      from operator_switch_cases [OF sw] have k: "k \<noteq> EndOfInput"
        by simp
      show ?thesis
      proof (cases "L2 = ?L1")
        case True
        with n have "next L =
            Inr (mk_token k [?src ! ?s], L\<lparr>m_start := of_nat ?s, m_pos := of_nat (?s + 1)\<rparr>)"
          by simp
        moreover have "value (mk_token k [?src ! ?s]) = take 1 (drop ?s ?src)"
          using s by (simp add: mk_token_def take_one)
        moreover have "type (mk_token k [?src ! ?s]) \<noteq> EndOfInput"
          using k by (simp add: mk_token_def)
        ultimately show ?thesis
          using s by (intro exI [of _ "mk_token k [?src ! ?s]"] exI [of _ 1]) simp
      next
        case False
        with operator_switch_cases [OF sw] have s2: "Suc ?s < length ?src"
          by (auto split: if_splits)
        let ?t = "mk_token k [?src ! ?s, ?src ! Suc ?s]"
        from False n have "next L =
            Inr (?t, L\<lparr>m_start := of_nat ?s, m_pos := of_nat (?s + 2)\<rparr>)"
          by simp
        moreover have "value ?t = take 2 (drop ?s ?src)"
          using s2 by (simp add: mk_token_def take_two)
        moreover have "type ?t \<noteq> EndOfInput"
          using k by (simp add: mk_token_def)
        ultimately show ?thesis
          using s2 by (intro exI [of _ ?t] exI [of _ 2]) simp
      qed
    qed
  qed
qed

lemma next_end:
  assumes len: "length (m_source L) \<le> 2147483647"
    and p: "0 \<le> sint (m_pos L)" "to_size_t (m_pos L) \<le> length (m_source L)"
    and s: "\<not> token_start L < length (m_source L)"
  shows "\<exists>L'. next L = Inr (mk_token EndOfInput [], L') \<and>
     m_source L' = m_source L \<and> m_pos L' = of_nat (length (m_source L)) \<and>
     (L' = L \<or> (\<exists>a. m_start L' = of_nat a \<and> to_size_t (m_pos L) \<le> a \<and>
        a < length (m_source L))) \<and>
     is_skipped (drop (to_size_t (m_pos L)) (m_source L))"
proof -
  let ?p = "to_size_t (m_pos L)" and ?src = "m_source L"
  have mp: "m_pos L = of_nat ?p"
    using p(1) by (simp add: to_size_t_def)
  from s skip_len_le [of "drop ?p ?src"] p(2)
  have "skip_len (drop ?p ?src) = length (drop ?p ?src)"
    by (simp add: token_start_def)
  then have sk: "is_skipped (drop ?p ?src)"
    by (simp add: is_skipped_iff)
  show ?thesis
  proof (cases "length ?src = 0")
    case True
    with p(2) mp sk show ?thesis
      by (simp add: next_def)
  next
    case False
    then have "next L = next_loop L"
      by (simp add: next_def)
    with next_loop_reaches_end [OF len mp p(2) sk] sk show ?thesis
      by auto
  qed
qed

text \<open>
  What a call of \<open>next\<close> does on a source that fits \<^verbatim>\<open>int\<close>, in positions of the
  source: the text from the old position to the start marker is skipped text, the
  lexeme is the text from the start marker to the new position, and the sentinel comes
  with the position at the end of the source.
\<close>

definition scanned :: "Lexer \<Rightarrow> Token \<Rightarrow> Lexer \<Rightarrow> bool" where
  "scanned L t L' \<longleftrightarrow>
     m_source L' = m_source L \<and> 0 \<le> sint (m_pos L') \<and>
     to_size_t (m_pos L) \<le> to_size_t (m_pos L') \<and>
     to_size_t (m_pos L') \<le> length (m_source L) \<and>
     (if type t = EndOfInput
      then t = mk_token EndOfInput [] \<and>
           to_size_t (m_pos L') = length (m_source L) \<and>
           is_skipped (drop (to_size_t (m_pos L)) (m_source L)) \<and>
           (L' = L \<or>
            (0 \<le> sint (m_start L') \<and> to_size_t (m_pos L) \<le> to_size_t (m_start L') \<and>
             to_size_t (m_start L') < to_size_t (m_pos L')))
      else 0 \<le> sint (m_start L') \<and>
           to_size_t (m_start L') = token_start L \<and>
           to_size_t (m_pos L) \<le> to_size_t (m_start L') \<and>
           to_size_t (m_start L') < to_size_t (m_pos L') \<and>
           value t =
             take (to_size_t (m_pos L') - to_size_t (m_start L'))
               (drop (to_size_t (m_start L')) (m_source L)) \<and>
           is_skipped
             (take (to_size_t (m_start L') - to_size_t (m_pos L))
               (drop (to_size_t (m_pos L)) (m_source L))))"

lemma next_scanned:
  assumes len: "length (m_source L) \<le> 2147483647"
    and p: "0 \<le> sint (m_pos L)" "to_size_t (m_pos L) \<le> length (m_source L)"
    and n: "next L = Inr (t, L')"
  shows "scanned L t L'"
proof (cases "token_start L < length (m_source L)")
  case True
  let ?s = "token_start L" and ?src = "m_source L" and ?p = "to_size_t (m_pos L)"
  from next_token [OF len True] n obtain k where
    L': "L' = L\<lparr>m_start := of_nat ?s, m_pos := of_nat (?s + k)\<rparr>"
    and t: "type t \<noteq> EndOfInput" "1 \<le> k" "?s + k \<le> length ?src"
      "value t = take k (drop ?s ?src)"
    by auto
  have c: "sint (of_nat ?s :: int32) = int ?s" "sint (of_nat (?s + k) :: int32) = int (?s + k)"
    "to_size_t (of_nat ?s) = ?s" "to_size_t (of_nat (?s + k)) = ?s + k"
    using len t(3) by (simp_all only: sint_of_nat32 to_size_t_of_nat)
  have "is_skipped (take (?s - ?p) (drop ?p ?src))"
    using is_skipped_take [of "drop ?p ?src"] by (simp add: token_start_def)
  moreover have "?p \<le> ?s"
    by (simp add: token_start_def)
  ultimately show ?thesis
    using t c unfolding scanned_def L' by (simp del: of_nat_add)
next
  case False
  let ?src = "m_source L" and ?p = "to_size_t (m_pos L)"
  from next_end [OF len p False] n obtain
    t: "t = mk_token EndOfInput []" "m_source L' = ?src" "m_pos L' = of_nat (length ?src)"
      "is_skipped (drop ?p ?src)"
    and d: "L' = L \<or> (\<exists>a. m_start L' = of_nat a \<and> ?p \<le> a \<and> a < length ?src)"
    by auto
  have c: "sint (of_nat (length ?src) :: int32) = int (length ?src)"
    "to_size_t (of_nat (length ?src)) = length ?src"
    using len by (simp_all only: sint_of_nat32 to_size_t_of_nat)
  from d have "L' = L \<or>
      (0 \<le> sint (m_start L') \<and> ?p \<le> to_size_t (m_start L') \<and>
       to_size_t (m_start L') < length ?src)"
  proof
    assume "L' = L"
    then show ?thesis by simp
  next
    assume "\<exists>a. m_start L' = of_nat a \<and> ?p \<le> a \<and> a < length ?src"
    then obtain a where a: "m_start L' = of_nat a" "?p \<le> a" "a < length ?src"
      by blast
    with len have "sint (of_nat a :: int32) = int a" "to_size_t (of_nat a) = a"
      by (simp_all add: sint_of_nat32 to_size_t_of_nat)
    with a show ?thesis by simp
  qed
  with t c p(2) show ?thesis
    unfolding scanned_def by (auto simp: mk_token_def)
qed

subsection \<open>Properties of repeated calls\<close>

lemma next_n_Suc_right: "next_n n L = Inr (t, L') \<Longrightarrow> next_n (Suc n) L = next L'"
proof (induction n arbitrary: L)
  case 0
  then show ?case by simp
next
  case (Suc n)
  obtain t1 L1 where n1: "next L = Inr (t1, L1)"
    using next_returned [of L] by blast
  with Suc.prems have "next_n n L1 = Inr (t, L')"
    by simp
  from Suc.IH [OF this] n1 show ?case
    by simp
qed

lemma next_n_total: "\<exists>t L'. next_n n L = Inr (t, L')"
proof (induction n arbitrary: L)
  case 0
  show ?case using next_returned [of L] by auto
next
  case (Suc n)
  obtain t1 L1 where n1: "next L = Inr (t1, L1)"
    using next_returned [of L] by blast
  with Suc [of L1] show ?case by simp
qed

lemma next_n_is_next: "next_n n L = Inr (t, L') \<Longrightarrow> \<exists>M. next M = Inr (t, L')"
proof (induction n arbitrary: L)
  case 0
  then show ?case by auto
next
  case (Suc n)
  obtain t1 L1 where n1: "next L = Inr (t1, L1)"
    using next_returned [of L] by blast
  with Suc.prems have "next_n n L1 = Inr (t, L')"
    by simp
  then show ?case by (rule Suc.IH)
qed

lemma next_n_add:
  "next_n n L = Inr (t, L') \<Longrightarrow> next_n (n + Suc k) L = next_n k L'"
proof (induction n arbitrary: L)
  case 0
  then show ?case by simp
next
  case (Suc n)
  obtain t1 L1 where n1: "next L = Inr (t1, L1)"
    using next_returned [of L] by blast
  with Suc.prems have "next_n n L1 = Inr (t, L')"
    by simp
  from Suc.IH [OF this] n1 show ?case
    by simp
qed

subsection \<open>The end of the input\<close>

lemma next_at_end:
  "\<not> less_size (m_pos L) (length (m_source L)) \<Longrightarrow>
     next L = Inr (mk_token EndOfInput [], L)"
  by (simp add: next_def Let_def next_loop_end)

lemma next_n_at_end:
  "\<not> less_size (m_pos L) (length (m_source L)) \<Longrightarrow>
     next_n n L = Inr (mk_token EndOfInput [], L)"
  by (induction n) (simp_all add: next_at_end)

lemma next_end_of_input:
  assumes "next L = Inr (t, L')" and "type t = EndOfInput"
  shows "t = mk_token EndOfInput []"
    and "\<not> less_size (m_pos L') (length (m_source L'))"
  using next_returnedD [OF assms(1)] assms(2) by (simp_all add: returned_def)

lemma less_size_iff: "less_size i n \<longleftrightarrow> 0 \<le> sint i \<and> to_size_t i < n"
  by (auto simp: less_size_def to_size_t_def)

subsection \<open>The consumer loop\<close>

lemma tokenize_eoi:
  "next L = Inr (t, L') \<Longrightarrow> type t = EndOfInput \<Longrightarrow> tokenize L = Inr [(t, L')]"
  by (subst tokenize.simps) simp

lemma tokenize_tok:
  "next L = Inr (t, L') \<Longrightarrow> type t \<noteq> EndOfInput \<Longrightarrow>
     tokenize L = (case tokenize L' of Inl e \<Rightarrow> Inl e | Inr r \<Rightarrow> Inr ((t, L') # r))"
  by (subst tokenize.simps) simp

lemma tokenize_induct [case_names eoi tok]:
  assumes "\<And>L t L'. next L = Inr (t, L') \<Longrightarrow> type t = EndOfInput \<Longrightarrow> P L"
    and "\<And>L t L'. next L = Inr (t, L') \<Longrightarrow> type t \<noteq> EndOfInput \<Longrightarrow> P L' \<Longrightarrow> P L"
  shows "P L"
proof (induction L rule: tokenize.induct)
  case (1 L)
  obtain t L' where n: "next L = Inr (t, L')"
    using next_returned [of L] by blast
  show ?case
  proof (cases "type t = EndOfInput")
    case True
    with n show ?thesis by (rule assms(1))
  next
    case False
    from n False "1.IH" [OF n refl False] show ?thesis
      by (rule assms(2))
  qed
qed

lemma tokenize_total: "\<exists>r. tokenize L = Inr r"
proof (induction L rule: tokenize_induct)
  case (eoi L t L')
  then show ?case by (simp add: tokenize_eoi)
next
  case (tok L t L')
  then show ?case by (auto simp: tokenize_tok)
qed

lemma remaining_le: "remaining L \<le> length (m_source L)"
  by (simp add: remaining_def)

lemma tokenize_shape:
  "tokenize L = Inr r \<Longrightarrow>
     \<exists>front Lend. r = front @ [(mk_token EndOfInput [], Lend)] \<and>
       (\<forall>x\<in>set front. type (fst x) \<noteq> EndOfInput) \<and>
       m_source Lend = m_source L \<and>
       \<not> less_size (m_pos Lend) (length (m_source L)) \<and>
       length front \<le> remaining L"
proof (induction L arbitrary: r rule: tokenize_induct)
  case (eoi L t L')
  from eoi have r: "r = [] @ [(t, L')]"
    by (simp add: tokenize_eoi)
  from next_end_of_input [OF eoi(1,2)] next_source [OF eoi(1)]
  have "t = mk_token EndOfInput []" "\<not> less_size (m_pos L') (length (m_source L))"
    "m_source L' = m_source L"
    by simp_all
  with r show ?case
    by (intro exI [of _ "[]"] exI [of _ L']) simp
next
  case (tok L t L')
  from tok.prems tok.hyps obtain r' where r': "tokenize L' = Inr r'" "r = (t, L') # r'"
    by (auto simp: tokenize_tok split: sum.splits)
  from tok.IH [OF r'(1)] obtain front Lend where
    f: "r' = front @ [(mk_token EndOfInput [], Lend)]"
      "\<forall>x\<in>set front. type (fst x) \<noteq> EndOfInput"
      "m_source Lend = m_source L'"
      "\<not> less_size (m_pos Lend) (length (m_source L'))"
      "length front \<le> remaining L'"
    by blast
  from next_returnedD [OF tok.hyps(1)] tok.hyps(2)
  have s: "m_source L' = m_source L" "remaining L' < remaining L"
    by (auto simp: returned_def)
  have "r = ((t, L') # front) @ [(mk_token EndOfInput [], Lend)]"
    using r'(2) f(1) by simp
  moreover have "\<forall>x\<in>set ((t, L') # front). type (fst x) \<noteq> EndOfInput"
    using f(2) tok.hyps(2) by simp
  moreover have "length ((t, L') # front) \<le> remaining L"
    using f(5) s by simp
  moreover have "m_source Lend = m_source L"
    "\<not> less_size (m_pos Lend) (length (m_source L))"
    using f(3,4) s by simp_all
  ultimately show ?case
    by blast
qed

lemma tokenize_nth:
  "tokenize L = Inr r \<Longrightarrow> i < length r \<Longrightarrow> next_n i L = Inr (r ! i)"
proof (induction L arbitrary: r i rule: tokenize_induct)
  case (eoi L t L')
  then show ?case
    by (auto simp: tokenize_eoi)
next
  case (tok L t L')
  from tok.prems tok.hyps obtain r' where r': "tokenize L' = Inr r'" "r = (t, L') # r'"
    by (auto simp: tokenize_tok split: sum.splits)
  show ?case
  proof (cases i)
    case 0
    with r' tok.hyps show ?thesis by simp
  next
    case (Suc j)
    with tok.prems(2) r'(2) have "j < length r'"
      by simp
    from tok.IH [OF r'(1) this] Suc r'(2) tok.hyps(1) show ?thesis
      by simp
  qed
qed

subsection \<open>The cursor invariant and the round trip\<close>

text \<open>
  The cursor invariant: the start marker is not negative and not after the position,
  which is within the source.
\<close>

definition cursor_inv :: "Lexer \<Rightarrow> bool" where
  "cursor_inv L \<longleftrightarrow>
     0 \<le> sint (m_start L) \<and> sint (m_start L) \<le> sint (m_pos L) \<and>
     sint (m_pos L) \<le> int (length (m_source L))"

lemma cursor_inv_new: "cursor_inv (new_Lexer source)"
  by (simp add: cursor_inv_def new_Lexer_def)

lemma next_bounds:
  assumes len: "length (m_source L) \<le> 2147483647" and inv: "cursor_inv L"
    and n: "next L = Inr (t, L')"
  shows "cursor_inv L'" and "sint (m_pos L) \<le> sint (m_pos L')"
proof -
  from inv have p: "0 \<le> sint (m_pos L)" "to_size_t (m_pos L) \<le> length (m_source L)"
    by (auto simp: cursor_inv_def to_size_t_def)
  note sc = next_scanned [OF len p n]
  then have q: "0 \<le> sint (m_pos L')" "m_source L' = m_source L"
    "to_size_t (m_pos L) \<le> to_size_t (m_pos L')"
    "to_size_t (m_pos L') \<le> length (m_source L)"
    by (simp_all add: scanned_def)
  with p(1) show "sint (m_pos L) \<le> sint (m_pos L')"
    by (simp add: to_size_t_def)
  have "L' = L \<or> (0 \<le> sint (m_start L') \<and> to_size_t (m_start L') < to_size_t (m_pos L'))"
    using sc by (auto simp: scanned_def split: if_splits)
  then show "cursor_inv L'"
  proof
    assume "L' = L"
    with inv show ?thesis by simp
  next
    assume "0 \<le> sint (m_start L') \<and> to_size_t (m_start L') < to_size_t (m_pos L')"
    with q show ?thesis
      by (auto simp: cursor_inv_def to_size_t_def)
  qed
qed

lemma next_n_bounds:
  "length (m_source L) \<le> 2147483647 \<Longrightarrow> cursor_inv L \<Longrightarrow> next_n n L = Inr (t, L') \<Longrightarrow>
     cursor_inv L' \<and> m_source L' = m_source L"
proof (induction n arbitrary: L)
  case 0
  then show ?case by (simp add: next_bounds next_source)
next
  case (Suc n)
  obtain t1 L1 where n1: "next L = Inr (t1, L1)"
    using next_returned [of L] by blast
  with Suc.prems have "next_n n L1 = Inr (t, L')"
    by simp
  from Suc.IH [OF _ next_bounds(1) [OF Suc.prems(1,2) n1] this] next_source [OF n1] Suc.prems(1)
  show ?case by simp
qed

text \<open>
  The round trip of a scan. \<open>slice s a b\<close> is the text of \<open>s\<close> from position \<open>a\<close>
  up to position \<open>b\<close>. For the calls recorded by \<open>tokenize\<close>, \<open>skipped_spans\<close> lists
  what each call passed over before its token (from the position at the call to the
  start marker after it; up to the final position for the call that returns
  \<^verbatim>\<open>EndOfInput\<close>), and \<open>reconstruct\<close> concatenates, in order, every skipped span and
  the lexeme of every token but the sentinel. Positions are read as the code reads them
  when it indexes the source (\<open>to_size_t\<close>).
\<close>

definition slice :: "string \<Rightarrow> nat \<Rightarrow> nat \<Rightarrow> string" where
  "slice s a b = take (b - a) (drop a s)"

fun skipped_spans :: "Lexer \<Rightarrow> (Token \<times> Lexer) list \<Rightarrow> string list" where
  "skipped_spans L [] = []"
| "skipped_spans L ((t, L') # r) =
     slice (m_source L) (to_size_t (m_pos L))
       (if type t = EndOfInput then to_size_t (m_pos L') else to_size_t (m_start L')) #
     skipped_spans L' r"

fun reconstruct :: "Lexer \<Rightarrow> (Token \<times> Lexer) list \<Rightarrow> string" where
  "reconstruct L [] = []"
| "reconstruct L ((t, L') # r) =
     slice (m_source L) (to_size_t (m_pos L))
       (if type t = EndOfInput then to_size_t (m_pos L') else to_size_t (m_start L')) @
     (if type t = EndOfInput then [] else value t) @
     reconstruct L' r"

lemma slice_chain:
  assumes "p \<le> s" and "s \<le> q"
  shows "slice xs p s @ slice xs s q @ drop q xs = drop p xs"
proof -
  have "slice xs s q @ drop q xs = take (q - s) (drop s xs) @ drop (q - s) (drop s xs)"
    using assms(2) by (simp add: slice_def)
  also have "\<dots> = drop s xs"
    by (rule append_take_drop_id)
  finally have "slice xs p s @ slice xs s q @ drop q xs =
      take (s - p) (drop p xs) @ drop (s - p) (drop p xs)"
    using assms(1) by (simp add: slice_def)
  also have "\<dots> = drop p xs"
    by (rule append_take_drop_id)
  finally show ?thesis .
qed

lemma reconstruct_drop:
  "length (m_source L) \<le> 2147483647 \<Longrightarrow> 0 \<le> sint (m_pos L) \<Longrightarrow>
   to_size_t (m_pos L) \<le> length (m_source L) \<Longrightarrow> tokenize L = Inr r \<Longrightarrow>
     reconstruct L r = drop (to_size_t (m_pos L)) (m_source L) \<and>
     (\<forall>g\<in>set (skipped_spans L r). is_skipped g) \<and>
     (\<forall>(t, L')\<in>set r. type t \<noteq> EndOfInput \<longrightarrow>
        value t = slice (m_source L) (to_size_t (m_start L')) (to_size_t (m_pos L')))"
proof (induction L arbitrary: r rule: tokenize_induct)
  case (eoi L t L')
  from eoi have r: "r = [(t, L')]"
    by (simp add: tokenize_eoi)
  from next_scanned [OF eoi(3-5) eoi(1)] eoi(2)
  have "to_size_t (m_pos L') = length (m_source L)"
    "is_skipped (drop (to_size_t (m_pos L)) (m_source L))"
    by (simp_all add: scanned_def)
  with eoi(2) show ?case
    by (simp add: r slice_def)
next
  case (tok L t L')
  let ?src = "m_source L"
  from tok.prems(4) tok.hyps obtain r' where r': "tokenize L' = Inr r'" "r = (t, L') # r'"
    by (auto simp: tokenize_tok split: sum.splits)
  from next_scanned [OF tok.prems(1-3) tok.hyps(1)] tok.hyps(2)
  have "m_source L' = ?src \<and> 0 \<le> sint (m_pos L') \<and>
    to_size_t (m_pos L') \<le> length ?src \<and>
    to_size_t (m_pos L) \<le> to_size_t (m_start L') \<and>
    to_size_t (m_start L') < to_size_t (m_pos L') \<and>
    value t = take (to_size_t (m_pos L') - to_size_t (m_start L'))
       (drop (to_size_t (m_start L')) ?src) \<and>
    is_skipped (take (to_size_t (m_start L') - to_size_t (m_pos L))
         (drop (to_size_t (m_pos L)) ?src))"
    by (auto simp: scanned_def)
  then have s: "m_source L' = ?src" "0 \<le> sint (m_pos L')"
    "to_size_t (m_pos L') \<le> length ?src"
    "to_size_t (m_pos L) \<le> to_size_t (m_start L')"
    "to_size_t (m_start L') < to_size_t (m_pos L')"
    "value t = slice ?src (to_size_t (m_start L')) (to_size_t (m_pos L'))"
    "is_skipped (slice ?src (to_size_t (m_pos L)) (to_size_t (m_start L')))"
    by (simp_all add: scanned_def slice_def)
  from tok.IH [OF _ s(2) _ r'(1)] tok.prems(1) s(1,3)
  have ih: "reconstruct L' r' = drop (to_size_t (m_pos L')) ?src"
    "\<forall>g\<in>set (skipped_spans L' r'). is_skipped g"
    "\<forall>(t, L')\<in>set r'. type t \<noteq> EndOfInput \<longrightarrow>
        value t = slice ?src (to_size_t (m_start L')) (to_size_t (m_pos L'))"
    by simp_all
  have "reconstruct L r =
      slice ?src (to_size_t (m_pos L)) (to_size_t (m_start L')) @
      slice ?src (to_size_t (m_start L')) (to_size_t (m_pos L')) @
      drop (to_size_t (m_pos L')) ?src"
    using tok.hyps(2) by (simp add: r'(2) s(6) ih(1))
  also have "\<dots> = drop (to_size_t (m_pos L)) ?src"
    using s(4,5) by (intro slice_chain) simp_all
  finally have "reconstruct L r = drop (to_size_t (m_pos L)) ?src" .
  moreover have "\<forall>g\<in>set (skipped_spans L r). is_skipped g"
    using tok.hyps(2) s(7) ih(2) by (simp add: r'(2))
  moreover have "\<forall>(t, L')\<in>set r. type t \<noteq> EndOfInput \<longrightarrow>
        value t = slice ?src (to_size_t (m_start L')) (to_size_t (m_pos L'))"
    using s(6) ih(3) by (simp add: r'(2))
  ultimately show ?case
    by blast
qed

subsection \<open>The operators and the literals, at every call\<close>

lemma next_two_char:
  assumes len: "length (m_source L) \<le> 2147483647"
    and s: "token_start L < length (m_source L)"
    and ch: "m_source L ! token_start L = ch"
      "ch = CHR ''='' \<or> ch = CHR ''>'' \<or> ch = CHR ''<''"
  shows "next L =
     (if Suc (token_start L) < length (m_source L) \<and>
         m_source L ! Suc (token_start L) = CHR ''=''
      then Inr (mk_token (if ch = CHR ''='' then Equal
                          else if ch = CHR ''>'' then GreaterEqual else LesserEqual)
                  [ch, CHR ''=''],
                L\<lparr>m_start := of_nat (token_start L), m_pos := of_nat (token_start L + 2)\<rparr>)
      else Inr (mk_token (if ch = CHR ''='' then Assign
                          else if ch = CHR ''>'' then Greater else Lesser)
                  [ch],
                L\<lparr>m_start := of_nat (token_start L), m_pos := of_nat (token_start L + 1)\<rparr>))"
proof -
  let ?s = "token_start L" and ?src = "m_source L"
  let ?L1 = "L\<lparr>m_start := of_nat ?s, m_pos := of_nat ?s + 1\<rparr>"
  let ?nc = "if Suc ?s < length ?src then ?src ! Suc ?s else CHR 0x00"
  have na: "\<not> isalpha (?src ! ?s)" "\<not> isnumber (?src ! ?s)"
    using ch by (auto simp: isalpha_def isnumber_def)
  obtain k L2 where sw: "operator_switch (?src ! ?s) ?nc ?L1 = (k, L2)"
    by (cases "operator_switch (?src ! ?s) ?nc ?L1")
  note n = next_operator [OF len s na sw]
  show ?thesis
  proof (cases "Suc ?s < length ?src \<and> ?src ! Suc ?s = CHR ''=''")
    case True
    with sw ch have "L2 = ?L1\<lparr>m_pos := m_pos ?L1 + 1\<rparr>"
      "k = (if ch = CHR ''='' then Equal
            else if ch = CHR ''>'' then GreaterEqual else LesserEqual)"
      by (auto simp: operator_switch_def)
    moreover from this have "L2 \<noteq> ?L1"
      by (auto dest: arg_cong [where f = m_pos])
    ultimately have "next L =
        Inr (mk_token (if ch = CHR ''='' then Equal
                       else if ch = CHR ''>'' then GreaterEqual else LesserEqual)
               [ch, CHR ''=''],
             L\<lparr>m_start := of_nat ?s, m_pos := of_nat (?s + 2)\<rparr>)"
      using n True ch(1) by simp
    then show ?thesis
      unfolding if_P [OF True] .
  next
    case False
    then have "?nc \<noteq> CHR ''=''"
      by auto
    with sw ch have "L2 = ?L1"
      "k = (if ch = CHR ''='' then Assign
            else if ch = CHR ''>'' then Greater else Lesser)"
      by (auto simp: operator_switch_def)
    then have "next L =
        Inr (mk_token (if ch = CHR ''='' then Assign
                       else if ch = CHR ''>'' then Greater else Lesser)
               [ch],
             L\<lparr>m_start := of_nat ?s, m_pos := of_nat (?s + 1)\<rparr>)"
      using n ch(1) by simp
    then show ?thesis
      unfolding if_not_P [OF False] .
  qed
qed

lemma next_one_char:
  assumes len: "length (m_source L) \<le> 2147483647"
    and s: "token_start L < length (m_source L)"
    and ch: "\<not> isalpha (m_source L ! token_start L)" "\<not> isnumber (m_source L ! token_start L)"
      "m_source L ! token_start L \<notin> set ''=><''"
  shows "next L =
     Inr (mk_token
            (fst (operator_switch (m_source L ! token_start L) (CHR 0x00) L))
            [m_source L ! token_start L],
          L\<lparr>m_start := of_nat (token_start L), m_pos := of_nat (token_start L + 1)\<rparr>)"
proof -
  let ?s = "token_start L" and ?src = "m_source L"
  let ?L1 = "L\<lparr>m_start := of_nat ?s, m_pos := of_nat ?s + 1\<rparr>"
  let ?nc = "if Suc ?s < length ?src then ?src ! Suc ?s else CHR 0x00"
  have sw: "operator_switch (?src ! ?s) ?nc ?L1 =
      (fst (operator_switch (?src ! ?s) (CHR 0x00) L), ?L1)"
    using ch(3) by (simp add: operator_switch_def)
  from next_operator [OF len s ch(1,2) sw] show ?thesis
    by simp
qed

lemma next_invalid:
  assumes len: "length (m_source L) \<le> 2147483647"
    and s: "token_start L < length (m_source L)"
    and ch: "\<not> isalpha (m_source L ! token_start L)" "\<not> isnumber (m_source L ! token_start L)"
      "m_source L ! token_start L \<notin> set ''=*/+-><{}(),:;''"
  shows "next L =
     Inr (mk_token Invalid [m_source L ! token_start L],
          L\<lparr>m_start := of_nat (token_start L), m_pos := of_nat (token_start L + 1)\<rparr>)"
proof -
  from ch(3) have "m_source L ! token_start L \<notin> set ''=><''"
    "fst (operator_switch (m_source L ! token_start L) (CHR 0x00) L) = Invalid"
    by (simp_all add: operator_switch_def)
  with next_one_char [OF len s ch(1,2)] show ?thesis
    by simp
qed

lemma next_minus:
  assumes len: "length (m_source L) \<le> 2147483647"
    and s: "token_start L < length (m_source L)"
    and ch: "m_source L ! token_start L = CHR ''-''"
  shows "next L =
     Inr (mk_token Minus ''-'',
          L\<lparr>m_start := of_nat (token_start L), m_pos := of_nat (token_start L + 1)\<rparr>)"
proof -
  from ch have "\<not> isalpha (m_source L ! token_start L)"
    "\<not> isnumber (m_source L ! token_start L)"
    "m_source L ! token_start L \<notin> set ''=><''"
    "fst (operator_switch (m_source L ! token_start L) (CHR 0x00) L) = Minus"
    by (simp_all add: operator_switch_def isalpha_def isnumber_def)
  with next_one_char [OF len s this(1,2,3)] ch show ?thesis
    by simp
qed

text \<open>Where the next call dispatches after a token that ends at position \<open>e\<close>.\<close>

lemma token_start_after:
  assumes "e \<le> 2147483647"
  shows "token_start (L\<lparr>m_start := a, m_pos := of_nat e\<rparr>) =
     e + skip_len (drop e (m_source L))"
  using assms by (simp add: token_start_def to_size_t_of_nat)

text \<open>
  A call that returns an integer literal has dispatched on a digit, and its lexeme is
  the run of digits from there.
\<close>

lemma next_not_end:
  assumes len: "length (m_source L) \<le> 2147483647"
    and n: "next L = Inr (t, L')" and t: "type t \<noteq> EndOfInput"
  shows "token_start L < length (m_source L)"
proof (rule ccontr)
  assume s: "\<not> token_start L < length (m_source L)"
  show False
  proof (cases "less_size (m_pos L) (length (m_source L))")
    case True
    then have "0 \<le> sint (m_pos L)" "to_size_t (m_pos L) \<le> length (m_source L)"
      by (simp_all add: less_size_iff)
    from next_end [OF len this s] n t show False
      by (auto simp: mk_token_def)
  next
    case False
    from next_at_end [OF this] n t show False
      by (auto simp: mk_token_def)
  qed
qed

lemma integer_literal_digits:
  assumes len: "length (m_source L) \<le> 2147483647"
    and n: "next L = Inr (t, L')" and t: "type t = IntegerLiteral"
  shows "token_start L < length (m_source L)"
    and "isnumber (m_source L ! token_start L)"
    and "value t = takeWhile isnumber (drop (token_start L) (m_source L))"
proof -
  let ?s = "token_start L" and ?src = "m_source L"
  let ?L1 = "L\<lparr>m_start := of_nat ?s, m_pos := of_nat ?s + 1\<rparr>"
  let ?nc = "if Suc ?s < length ?src then ?src ! Suc ?s else CHR 0x00"
  from t have "type t \<noteq> EndOfInput"
    by simp
  from next_not_end [OF len n this] show s: "?s < length ?src" .
  have na: "\<not> isalpha (?src ! ?s)"
  proof
    assume "isalpha (?src ! ?s)"
    from next_identifier [OF len s this] n t show False
      by (auto simp: mk_token_def dest: keywordMap_not_special split: option.splits)
  qed
  show d: "isnumber (?src ! ?s)"
  proof (rule ccontr)
    assume nd: "\<not> isnumber (?src ! ?s)"
    obtain k L2 where sw: "operator_switch (?src ! ?s) ?nc ?L1 = (k, L2)"
      by (cases "operator_switch (?src ! ?s) ?nc ?L1")
    from next_operator [OF len s na nd sw] n t operator_switch_cases [OF sw] show False
      by (auto simp: mk_token_def split: if_splits)
  qed
  from next_number [OF len s d] n
  show "value t = takeWhile isnumber (drop ?s ?src)"
    by (auto simp: mk_token_def)
qed

subsection \<open>Sources longer than \<^verbatim>\<open>int\<close>\<close>

text \<open>
  What the scanner does at position 2147483647 (\<^verbatim>\<open>INT_MAX\<close>) of a longer source:
  the look-ahead index \<^verbatim>\<open>m_pos + 1\<close> and the increment \<^verbatim>\<open>m_pos++\<close> wrap to
  -2147483648, the look-ahead is \<^verbatim>\<open>'\0'\<close>, no inner loop runs, and the length
  \<^verbatim>\<open>m_pos - m_start\<close> of the lexeme wraps to 1.
\<close>

lemma skip_len_spaces: "skip_len (replicate n CHR '' '' @ xs) = n + skip_len xs"
  by (induction n) (simp_all add: skip_len_space is_space_def)

lemma int_max_succ: "(of_nat 2147483647 :: int32) + 1 = - 2147483648"
  by simp

lemma int_max_word: "(of_nat 2147483647 :: int32) = 2147483647"
  by simp

lemma sint_int_min: "sint (- 2147483648 :: int32) = - 2147483648"
  by simp

lemma not_less_size_int_min: "\<not> less_size (- 2147483648 :: int32) n"
  by (simp add: less_size_def sint_int_min)

lemma substr_int_max:
  assumes "2147483647 < length src"
  shows "substr src (to_size_t (2147483647 :: int32))
      (to_size_t ((- 2147483648 :: int32) - 2147483647)) = Inr [src ! 2147483647]"
proof -
  have "(- 2147483648 :: int32) - 2147483647 = 1"
    by simp
  then have a: "to_size_t ((- 2147483648 :: int32) - 2147483647) = Suc 0"
    by (simp only:) (simp add: to_size_t_def)
  have b: "to_size_t (2147483647 :: int32) = 2147483647"
    by (simp add: to_size_t_def)
  show ?thesis
    unfolding a b substr_def using assms take_one [of 2147483647 src] by simp
qed

lemma next_int_max:
  assumes "m_pos L = of_nat p"
    and "p + skip_len (drop p (m_source L)) = 2147483647"
    and "2147483647 < length (m_source L)"
  shows "next L =
     dispatch (m_source L ! 2147483647) (CHR 0x00)
       (L\<lparr>m_start := 2147483647, m_pos := - 2147483648\<rparr>)"
proof -
  from assms(3) have "length (m_source L) \<noteq> 0"
    by auto
  then have "next L = next_loop L"
    by (simp add: next_def)
  also from next_loop_dispatches_at [OF assms(1) assms(2) [symmetric] assms(3)]
  have "next_loop L =
     dispatch (m_source L ! 2147483647)
       (if less_size (of_nat 2147483647 + 1) (length (m_source L))
        then m_source L ! to_size_t (of_nat 2147483647 + 1) else CHR 0x00)
       (L\<lparr>m_start := of_nat 2147483647, m_pos := of_nat 2147483647 + 1\<rparr>)"
    by simp
  also have "\<dots> = dispatch (m_source L ! 2147483647) (CHR 0x00)
       (L\<lparr>m_start := 2147483647, m_pos := - 2147483648\<rparr>)"
    by (simp only: int_max_succ not_less_size_int_min if_False) (simp only: int_max_word)
  finally show ?thesis .
qed

lemma dispatch_int_max:
  assumes "2147483647 < length (m_source L)"
  defines "L1 \<equiv> L\<lparr>m_start := 2147483647, m_pos := - 2147483648\<rparr>"
  shows "dispatch ch (CHR 0x00) L1 =
     Inr (mk_token
       (if isalpha ch
        then (case keywordMap [m_source L ! 2147483647] of Some k \<Rightarrow> k | None \<Rightarrow> Identifier)
        else if isnumber ch then IntegerLiteral
        else fst (operator_switch ch (CHR 0x00) L1))
       [m_source L ! 2147483647], L1)"
proof -
  have a: "identifier_loop L1 = L1" "number_loop L1 = L1"
    unfolding L1_def
    by (subst identifier_loop.simps number_loop.simps, simp add: not_less_size_int_min)+
  have b: "substr (m_source L1) (to_size_t (m_start L1)) (to_size_t (m_pos L1 - m_start L1)) =
      Inr [m_source L ! 2147483647]"
    using substr_int_max [OF assms(1)] by (simp add: L1_def)
  have c: "operator_switch ch (CHR 0x00) L1 = (fst (operator_switch ch (CHR 0x00) L1), L1)"
    by (simp add: operator_switch_def)
  show ?thesis
  proof (cases "isalpha ch")
    case True
    then show ?thesis
      by (simp add: dispatch_def identifier_def a b split: option.splits)
  next
    case na: False
    show ?thesis
    proof (cases "isnumber ch")
      case True
      with na show ?thesis
        by (simp add: dispatch_def number_def a b)
    next
      case False
      with na show ?thesis
        by (subst dispatch_def, subst c) (simp add: b)
    qed
  qed
qed

lemma next_after_spaces:
  assumes "\<not> is_space c" and "\<not> (c = CHR ''/'' \<and> cs \<noteq> [] \<and> hd cs = CHR ''/'')"
  defines "src \<equiv> replicate 2147483647 CHR '' '' @ c # cs"
  shows "next (new_Lexer src) =
     dispatch c (CHR 0x00) \<lparr>m_source = src, m_pos = - 2147483648, m_start = 2147483647\<rparr>"
proof -
  have "skip_len src = 2147483647"
    using assms(1,2) by (simp add: src_def skip_len_spaces skip_len_stop)
  moreover have "src ! 2147483647 = c"
    by (simp add: src_def nth_append)
  moreover have "2147483647 < length src"
    by (simp add: src_def)
  ultimately show ?thesis
    using next_int_max [of "new_Lexer src" 0] by (simp add: new_Lexer_def)
qed

text \<open>
  A comment that starts at position 2147483647 is not seen: the look-ahead is lost, and
  the call returns the \<^verbatim>\<open>/\<close> as a Divide token.
\<close>

lemma comment_at_int_max:
  assumes "m_pos L = 2147483647" and "drop 2147483647 (m_source L) = ''//''"
  shows "next L =
     Inr (mk_token Divide ''/'', L\<lparr>m_start := 2147483647, m_pos := - 2147483648\<rparr>)"
proof -
  from assms(2) have len: "2147483647 < length (m_source L)"
    by (cases "2147483647 < length (m_source L)") simp_all
  from assms(2) have ch: "m_source L ! 2147483647 = CHR ''/''"
    by (simp add: nth_via_drop)
  have p: "to_size_t (m_pos L) = 2147483647" "m_pos L + 1 = - 2147483648"
    using assms(1) by (simp_all add: to_size_t_def)
  have "less_size (m_pos L) (length (m_source L))"
    using assms(1) len by (simp add: less_size_def)
  from next_loop_dispatch [OF this] have "next_loop L =
      dispatch (CHR ''/'') (CHR 0x00) (L\<lparr>m_start := 2147483647, m_pos := - 2147483648\<rparr>)"
    by (simp only: p ch not_less_size_int_min slash_not_space simp_thms if_False)
      (simp only: assms(1))
  with len dispatch_int_max [OF len, of "CHR ''/''"] ch show ?thesis
    by (auto simp: next_def operator_switch_def isalpha_def isnumber_def)
qed

lemma keyword_table_distinct: "distinct (map fst keyword_table)"
  by (simp add: keyword_table_def)

section \<open>The claims\<close>

text \<open>
  C7. End-to-end scenario: scanning \<^verbatim>\<open>function fib(int n) : int { return 1; }\<close> with
  repeated calls of \<open>next\<close> gives exactly Function, Identifier \<open>fib\<close>, ParenOpen, Int,
  Identifier \<open>n\<close>, ParenClose, Colon, Int, BraceOpen, Return, IntegerLiteral \<open>1\<close>,
  SemiColon, BraceClose, EndOfInput.
\<close>

theorem scenario_fib:
  "tokens ''function fib(int n) : int { return 1; }'' =
     Inr [mk_token Function ''function'',
          mk_token Identifier ''fib'',
          mk_token ParenOpen ''('',
          mk_token Int_tok ''int'',
          mk_token Identifier ''n'',
          mk_token ParenClose '')'',
          mk_token Colon '':'',
          mk_token Int_tok ''int'',
          mk_token BraceOpen ''{'',
          mk_token Return ''return'',
          mk_token IntegerLiteral ''1'',
          mk_token SemiColon '';'',
          mk_token BraceClose ''}'',
          mk_token EndOfInput []]"
  by code_simp

text \<open>
  C9. Every token returned by any call of \<open>next\<close> has \<open>line = 0\<close> and
  \<open>column = 0\<close>: no return site assigns the two fields, for every scanner (so for
  every input string, of any length) and every call.
\<close>

theorem zero_position:
  "\<exists>t L'. next_n n L = Inr (t, L') \<and> line t = 0 \<and> column t = 0"
proof -
  obtain t L' where r: "next_n n L = Inr (t, L')"
    using next_n_total by blast
  then obtain M where "next M = Inr (t, L')"
    using next_n_is_next by blast
  then have "returned M t L'"
    by (rule next_returnedD)
  with r show ?thesis
    by (auto simp: returned_def)
qed

text \<open>
  C6. Totality and termination: every call of \<open>next\<close> returns (the loops of the model
  are total functions, and no call fails), and for every source the tokens of repeated
  calls up to the first end-of-input sentinel form a finite list \<open>r\<close> of at most
  \<open>length source + 1\<close> calls: call number \<open>i + 1\<close> returns \<open>r ! i\<close>, no token before
  the last is the sentinel, and from the last on every call returns the sentinel. This
  holds for a source of any length.
\<close>

theorem totality:
  "(\<forall>L. \<exists>t L'. next L = Inr (t, L')) \<and>
   (\<exists>r. tokenize (new_Lexer source) = Inr r \<and> r \<noteq> [] \<and>
      length r \<le> Suc (length source) \<and>
      (\<forall>i. i < length r \<longrightarrow> next_n i (new_Lexer source) = Inr (r ! i)) \<and>
      (\<forall>i. Suc i < length r \<longrightarrow> type (fst (r ! i)) \<noteq> EndOfInput) \<and>
      (\<forall>i. length r - 1 \<le> i \<longrightarrow>
         next_n i (new_Lexer source) = Inr (mk_token EndOfInput [], snd (last r))))"
proof
  show "\<forall>L. \<exists>t L'. next L = Inr (t, L')"
    using next_returned by blast
next
  let ?L = "new_Lexer source"
  obtain r where r: "tokenize ?L = Inr r"
    using tokenize_total by blast
  from tokenize_shape [OF r] obtain front Lend where
    f: "r = front @ [(mk_token EndOfInput [], Lend)]"
      "\<forall>x\<in>set front. type (fst x) \<noteq> EndOfInput"
      "m_source Lend = m_source ?L"
      "\<not> less_size (m_pos Lend) (length (m_source ?L))"
      "length front \<le> remaining ?L"
    by blast
  have len: "length r \<le> Suc (length source)"
    using f(1,5) remaining_le [of ?L] by (simp add: new_Lexer_def)
  have nth: "next_n i ?L = Inr (r ! i)" if "i < length r" for i
    using r that by (rule tokenize_nth)
  have before: "type (fst (r ! i)) \<noteq> EndOfInput" if "Suc i < length r" for i
  proof -
    from that have "i < length front"
      by (simp add: f(1))
    then have "r ! i \<in> set front"
      by (simp add: f(1) nth_append)
    with f(2) show ?thesis
      by blast
  qed
  have last: "next_n (length front) ?L = Inr (mk_token EndOfInput [], Lend)"
    using nth [of "length front"] by (simp add: f(1))
  have after: "next_n i ?L = Inr (mk_token EndOfInput [], snd (last r))"
    if "length r - 1 \<le> i" for i
  proof (cases "i = length front")
    case True
    with last show ?thesis
      by (simp add: f(1))
  next
    case False
    define k where "k = i - Suc (length front)"
    with that False have k: "i = length front + Suc k"
      by (simp add: f(1))
    have "\<not> less_size (m_pos Lend) (length (m_source Lend))"
      using f(3,4) by simp
    then have "next_n k Lend = Inr (mk_token EndOfInput [], Lend)"
      by (rule next_n_at_end)
    with next_n_add [OF last, of k] show ?thesis
      by (simp add: k f(1))
  qed
  from r len nth before after f(1)
  show "\<exists>r. tokenize ?L = Inr r \<and> r \<noteq> [] \<and> length r \<le> Suc (length source) \<and>
      (\<forall>i. i < length r \<longrightarrow> next_n i ?L = Inr (r ! i)) \<and>
      (\<forall>i. Suc i < length r \<longrightarrow> type (fst (r ! i)) \<noteq> EndOfInput) \<and>
      (\<forall>i. length r - 1 \<le> i \<longrightarrow>
         next_n i ?L = Inr (mk_token EndOfInput [], snd (last r)))"
    by (intro exI [of _ r]) auto
qed

text \<open>The theorem on \<^verbatim>\<open>a=1\<close>: three tokens, then the sentinel at the fourth call and after.\<close>

theorem totality_witness:
  "tokenize (new_Lexer ''a=1'') =
     Inr [(mk_token Identifier ''a'', \<lparr>m_source = ''a=1'', m_pos = 1, m_start = 0\<rparr>),
          (mk_token Assign ''='', \<lparr>m_source = ''a=1'', m_pos = 2, m_start = 1\<rparr>),
          (mk_token IntegerLiteral ''1'', \<lparr>m_source = ''a=1'', m_pos = 3, m_start = 2\<rparr>),
          (mk_token EndOfInput [], \<lparr>m_source = ''a=1'', m_pos = 3, m_start = 2\<rparr>)] \<and>
   next_n 2 (new_Lexer ''a=1'') =
     Inr (mk_token IntegerLiteral ''1'', \<lparr>m_source = ''a=1'', m_pos = 3, m_start = 2\<rparr>) \<and>
   next_n 3 (new_Lexer ''a=1'') =
     Inr (mk_token EndOfInput [], \<lparr>m_source = ''a=1'', m_pos = 3, m_start = 2\<rparr>) \<and>
   next_n 10 (new_Lexer ''a=1'') =
     Inr (mk_token EndOfInput [], \<lparr>m_source = ''a=1'', m_pos = 3, m_start = 2\<rparr>)"
proof -
  have t: "tokenize (new_Lexer ''a=1'') =
     Inr [(mk_token Identifier ''a'', \<lparr>m_source = ''a=1'', m_pos = 1, m_start = 0\<rparr>),
          (mk_token Assign ''='', \<lparr>m_source = ''a=1'', m_pos = 2, m_start = 1\<rparr>),
          (mk_token IntegerLiteral ''1'', \<lparr>m_source = ''a=1'', m_pos = 3, m_start = 2\<rparr>),
          (mk_token EndOfInput [], \<lparr>m_source = ''a=1'', m_pos = 3, m_start = 2\<rparr>)]"
    by code_simp
  from totality [of "''a=1''", THEN conjunct2] t
  have a: "\<forall>i. i < 4 \<longrightarrow> next_n i (new_Lexer ''a=1'') =
        Inr ([(mk_token Identifier ''a'', \<lparr>m_source = ''a=1'', m_pos = 1, m_start = 0\<rparr>),
          (mk_token Assign ''='', \<lparr>m_source = ''a=1'', m_pos = 2, m_start = 1\<rparr>),
          (mk_token IntegerLiteral ''1'', \<lparr>m_source = ''a=1'', m_pos = 3, m_start = 2\<rparr>),
          (mk_token EndOfInput [], \<lparr>m_source = ''a=1'', m_pos = 3, m_start = 2\<rparr>)] ! i)"
    and b: "\<forall>i. 3 \<le> i \<longrightarrow> next_n i (new_Lexer ''a=1'') =
        Inr (mk_token EndOfInput [], \<lparr>m_source = ''a=1'', m_pos = 3, m_start = 2\<rparr>)"
    by auto
  from a [THEN spec, of 2] b [THEN spec, of 3] b [THEN spec, of 10] t show ?thesis
    by simp
qed

text \<open>
  C4. Idempotent terminal state: when the position has reached the end of the source
  (the loop test \<^verbatim>\<open>m_pos < len\<close> fails), \<open>next\<close> returns the end-of-input sentinel
  with an empty lexeme and leaves the scanner as it is; and once any call has returned
  the sentinel, every later call returns the same token and leaves the scanner (position
  and start marker) as it is. Both hold for a source of any length. On a source that
  fits \<^verbatim>\<open>int\<close>, the sentinel is moreover returned as soon as only white space and
  comments remain after the position, and only then (\<open>comment_at_int_max\<close> is why
  this part has the bound).
\<close>

theorem end_of_input_idempotent:
  "(\<not> less_size (m_pos L) (length (m_source L)) \<longrightarrow>
      next L = Inr (mk_token EndOfInput [], L)) \<and>
   (length (m_source L) \<le> 2147483647 \<and>
    is_skipped (drop (to_size_t (m_pos L)) (m_source L)) \<longrightarrow>
      (\<exists>L'. next L = Inr (mk_token EndOfInput [], L'))) \<and>
   (\<forall>t L'. next L = Inr (t, L') \<and> type t = EndOfInput \<longrightarrow>
      t = mk_token EndOfInput [] \<and> value t = [] \<and>
      (\<forall>n. next_n n L' = Inr (t, L')) \<and>
      (length (m_source L) \<le> 2147483647 \<longrightarrow>
         is_skipped (drop (to_size_t (m_pos L)) (m_source L))))"
proof (intro conjI allI impI)
  assume "\<not> less_size (m_pos L) (length (m_source L))"
  then show "next L = Inr (mk_token EndOfInput [], L)"
    by (rule next_at_end)
next
  assume a: "length (m_source L) \<le> 2147483647 \<and>
    is_skipped (drop (to_size_t (m_pos L)) (m_source L))"
  show "\<exists>L'. next L = Inr (mk_token EndOfInput [], L')"
  proof (cases "less_size (m_pos L) (length (m_source L))")
    case True
    then have p: "0 \<le> sint (m_pos L)" "to_size_t (m_pos L) \<le> length (m_source L)"
      by (simp_all add: less_size_iff)
    from a have "skip_len (drop (to_size_t (m_pos L)) (m_source L)) =
        length (drop (to_size_t (m_pos L)) (m_source L))"
      by (simp only: is_skipped_iff)
    with p(2) have "\<not> token_start L < length (m_source L)"
      by (simp add: token_start_def)
    from next_end [OF conjunct1 [OF a] p this] show ?thesis
      by blast
  next
    case False
    then show ?thesis
      by (auto dest: next_at_end)
  qed
next
  fix t L' n
  assume "next L = Inr (t, L') \<and> type t = EndOfInput"
  then have a: "next L = Inr (t, L')" "type t = EndOfInput"
    by simp_all
  note e = next_end_of_input [OF a]
  show "t = mk_token EndOfInput []"
    by (rule e(1))
  then show "value t = []"
    by (simp add: mk_token_def)
  show "next_n n L' = Inr (t, L')"
    using next_n_at_end [OF e(2), of n] e(1) by simp
  {
    assume len: "length (m_source L) \<le> 2147483647"
    show "is_skipped (drop (to_size_t (m_pos L)) (m_source L))"
    proof (cases "less_size (m_pos L) (length (m_source L))")
      case True
      then have p: "0 \<le> sint (m_pos L)" "to_size_t (m_pos L) \<le> length (m_source L)"
        by (simp_all add: less_size_iff)
      from next_scanned [OF len p a(1)] a(2) show ?thesis
        by (simp add: scanned_def)
    next
      case False
      with len have "length (m_source L) \<le> to_size_t (m_pos L)"
        using to_size_t_neg [of "m_pos L"] by (cases "0 \<le> sint (m_pos L)")
          (simp_all add: less_size_def to_size_t_nonneg)
      then show ?thesis
        by (simp add: is_skipped.simps(1))
    qed
  }
qed

text \<open>
  The theorem after the first call on \<^verbatim>\<open>a // c\<close>, where only a comment remains:
  the second call returns the sentinel, and so does every call after it.
\<close>

theorem end_of_input_idempotent_witness:
  "next (new_Lexer ''a // c'') =
     Inr (mk_token Identifier ''a'', \<lparr>m_source = ''a // c'', m_pos = 1, m_start = 0\<rparr>) \<and>
   is_skipped (drop 1 ''a // c'') \<and>
   next \<lparr>m_source = ''a // c'', m_pos = 1, m_start = 0\<rparr> =
     Inr (mk_token EndOfInput [], \<lparr>m_source = ''a // c'', m_pos = 6, m_start = 2\<rparr>) \<and>
   next_n 0 \<lparr>m_source = ''a // c'', m_pos = 6, m_start = 2\<rparr> =
     Inr (mk_token EndOfInput [], \<lparr>m_source = ''a // c'', m_pos = 6, m_start = 2\<rparr>) \<and>
   next_n 5 \<lparr>m_source = ''a // c'', m_pos = 6, m_start = 2\<rparr> =
     Inr (mk_token EndOfInput [], \<lparr>m_source = ''a // c'', m_pos = 6, m_start = 2\<rparr>)"
proof -
  let ?L = "\<lparr>m_source = ''a // c'', m_pos = 1, m_start = 0\<rparr>"
  let ?L' = "\<lparr>m_source = ''a // c'', m_pos = 6, m_start = 2\<rparr>"
  have f: "next (new_Lexer ''a // c'') = Inr (mk_token Identifier ''a'', ?L)"
    by code_simp
  have sk: "is_skipped (drop 1 ''a // c'')"
    by code_simp
  have n: "next ?L = Inr (mk_token EndOfInput [], ?L')"
    by code_simp
  have "\<forall>n. next_n n ?L' = Inr (mk_token EndOfInput [], ?L')"
    using end_of_input_idempotent [of ?L, THEN conjunct2, THEN conjunct2, THEN spec,
        THEN spec, of "mk_token EndOfInput []" ?L'] n
    by (simp add: mk_token_def)
  with f sk n show ?thesis
    by simp
qed

text \<open>
  C10, amended. Cursor invariant, for a source of at most 2147483647 characters (one
  whose positions fit the \<^verbatim>\<open>int\<close> cursor): after every call of a sequence of
  calls of \<open>next\<close> on a new scanner, \<open>0 \<le> m_start \<le> m_pos \<le> length source\<close> holds,
  the values read as the signed integers they are, and \<open>m_pos\<close> never decreases from
  one call to the next, the first call included. More generally a call on any scanner
  that satisfies the invariant keeps it and does not move the position backwards.
\<close>

theorem cursor_invariant:
  assumes "length source \<le> 2147483647"
  shows "(\<forall>n. \<exists>t L'. next_n n (new_Lexer source) = Inr (t, L') \<and>
      0 \<le> sint (m_start L') \<and> sint (m_start L') \<le> sint (m_pos L') \<and>
      sint (m_pos L') \<le> int (length source)) \<and>
   (\<forall>t L'. next (new_Lexer source) = Inr (t, L') \<longrightarrow>
      sint (m_pos (new_Lexer source)) \<le> sint (m_pos L')) \<and>
   (\<forall>n t L' t2 L2.
      next_n n (new_Lexer source) = Inr (t, L') \<and>
      next_n (Suc n) (new_Lexer source) = Inr (t2, L2) \<longrightarrow>
        sint (m_pos L') \<le> sint (m_pos L2)) \<and>
   (\<forall>L t L'. m_source L = source \<and> cursor_inv L \<and> next L = Inr (t, L') \<longrightarrow>
      cursor_inv L' \<and> sint (m_pos L) \<le> sint (m_pos L'))"
proof (intro conjI allI impI)
  fix n
  obtain t L' where r: "next_n n (new_Lexer source) = Inr (t, L')"
    using next_n_total by blast
  have "length (m_source (new_Lexer source)) \<le> 2147483647"
    using assms by (simp add: new_Lexer_def)
  from next_n_bounds [OF this cursor_inv_new r]
  have "0 \<le> sint (m_start L') \<and> sint (m_start L') \<le> sint (m_pos L') \<and>
      sint (m_pos L') \<le> int (length source)"
    by (auto simp: cursor_inv_def new_Lexer_def)
  with r show "\<exists>t L'. next_n n (new_Lexer source) = Inr (t, L') \<and>
      0 \<le> sint (m_start L') \<and> sint (m_start L') \<le> sint (m_pos L') \<and>
      sint (m_pos L') \<le> int (length source)"
    by blast
next
  fix t L'
  assume n: "next (new_Lexer source) = Inr (t, L')"
  have "length (m_source (new_Lexer source)) \<le> 2147483647"
    using assms by (simp add: new_Lexer_def)
  from next_bounds(2) [OF this cursor_inv_new n]
  show "sint (m_pos (new_Lexer source)) \<le> sint (m_pos L')" .
next
  fix n t L' t2 L2
  assume a: "next_n n (new_Lexer source) = Inr (t, L') \<and>
      next_n (Suc n) (new_Lexer source) = Inr (t2, L2)"
  then have n: "next L' = Inr (t2, L2)"
    using next_n_Suc_right [of n "new_Lexer source" t L'] by simp
  have len: "length (m_source (new_Lexer source)) \<le> 2147483647"
    using assms by (simp add: new_Lexer_def)
  from next_n_bounds [OF len cursor_inv_new conjunct1 [OF a]] len
  have "cursor_inv L'" "length (m_source L') \<le> 2147483647"
    by simp_all
  from next_bounds(2) [OF this(2,1) n] show "sint (m_pos L') \<le> sint (m_pos L2)" .
next
  fix L t L'
  assume a: "m_source L = source \<and> cursor_inv L \<and> next L = Inr (t, L')"
  with assms have "length (m_source L) \<le> 2147483647" "cursor_inv L"
    "next L = Inr (t, L')"
    by simp_all
  then show "cursor_inv L'" and "sint (m_pos L) \<le> sint (m_pos L')"
    by (rule next_bounds)+
qed

text \<open>The invariant at the second and third call on \<^verbatim>\<open>a == 1\<close>.\<close>

theorem cursor_invariant_witness:
  "next_n 1 (new_Lexer ''a == 1'') =
     Inr (mk_token Equal ''=='', \<lparr>m_source = ''a == 1'', m_pos = 4, m_start = 2\<rparr>) \<and>
   next_n 2 (new_Lexer ''a == 1'') =
     Inr (mk_token IntegerLiteral ''1'', \<lparr>m_source = ''a == 1'', m_pos = 6, m_start = 5\<rparr>) \<and>
   sint (4 :: int32) \<le> sint (6 :: int32) \<and>
   sint (5 :: int32) \<le> sint (6 :: int32) \<and> sint (6 :: int32) \<le> int (length ''a == 1'')"
proof -
  have a: "next_n 1 (new_Lexer ''a == 1'') =
     Inr (mk_token Equal ''=='', \<lparr>m_source = ''a == 1'', m_pos = 4, m_start = 2\<rparr>)"
    by code_simp
  have b: "next_n (Suc 1) (new_Lexer ''a == 1'') =
     Inr (mk_token IntegerLiteral ''1'', \<lparr>m_source = ''a == 1'', m_pos = 6, m_start = 5\<rparr>)"
    by code_simp
  have len: "length ''a == 1'' \<le> 2147483647"
    by simp
  from cursor_invariant [OF len, THEN conjunct2, THEN conjunct2, THEN conjunct1, rule_format,
      OF conjI, OF a b]
  have "sint (m_pos \<lparr>m_source = ''a == 1'', m_pos = 4, m_start = 2\<rparr>)
      \<le> sint (m_pos \<lparr>m_source = ''a == 1'', m_pos = 6, m_start = 5\<rparr>)" .
  moreover from cursor_invariant [OF len, THEN conjunct1, THEN spec, of 2] b
  have "sint (5 :: int32) \<le> sint (6 :: int32) \<and> sint (6 :: int32) \<le> int (length ''a == 1'')"
    by (simp add: eval_nat_numeral)
  ultimately show ?thesis
    using a b by (simp add: eval_nat_numeral)
qed

text \<open>
  The claim as it was stated, for every source, fails on a source of 2147483648
  spaces: the first call returns with \<open>m_pos = -2147483648\<close> and
  \<open>m_start = 2147483647\<close>, so the invariant is broken and the position has moved
  backwards from 0.
\<close>

theorem cursor_invariant_counterexample:
  "next (new_Lexer (replicate 2147483648 CHR '' '')) =
     Inr (mk_token EndOfInput [],
          \<lparr>m_source = replicate 2147483648 CHR '' '', m_pos = - 2147483648,
             m_start = 2147483647\<rparr>) \<and>
   \<not> cursor_inv \<lparr>m_source = replicate 2147483648 CHR '' '', m_pos = - 2147483648,
             m_start = 2147483647\<rparr> \<and>
   sint (m_pos \<lparr>m_source = replicate 2147483648 CHR '' '', m_pos = - 2147483648,
             m_start = 2147483647\<rparr>) < sint (m_pos (new_Lexer (replicate 2147483648 CHR '' '')))"
proof -
  let ?src = "replicate 2147483648 CHR '' ''"
  have "next (new_Lexer ?src) = next_loop (new_Lexer ?src)"
    by (simp add: next_def new_Lexer_def)
  also have "\<dots> = Inr (mk_token EndOfInput [],
      new_Lexer ?src\<lparr>m_start := 2147483647, m_pos := - 2147483648\<rparr>)"
    by (rule next_loop_spaces_overflow [of _ 0]) (simp_all add: new_Lexer_def is_space_def)
  finally show ?thesis
    by (simp add: new_Lexer_def cursor_inv_def)
qed

text \<open>
  C2, amended. Round trip, for a source of at most 2147483647 characters: the calls of
  \<open>next\<close> up to the first sentinel are the list \<open>r\<close> of \<open>tokenize\<close>; concatenating
  in order the lexeme of every token but the sentinel and every span the scanner
  skipped gives the source back; every skipped span is white space and comments only,
  and every lexeme is the source text between the start marker and the position, so no
  character is dropped.
\<close>

theorem round_trip:
  assumes "length source \<le> 2147483647"
  shows "\<exists>r. tokenize (new_Lexer source) = Inr r \<and>
     (\<forall>i. i < length r \<longrightarrow> next_n i (new_Lexer source) = Inr (r ! i)) \<and>
     reconstruct (new_Lexer source) r = source \<and>
     (\<forall>g\<in>set (skipped_spans (new_Lexer source) r). is_skipped g) \<and>
     (\<forall>(t, L')\<in>set r. type t \<noteq> EndOfInput \<longrightarrow>
        value t = slice source (to_size_t (m_start L')) (to_size_t (m_pos L')))"
proof -
  obtain r where r: "tokenize (new_Lexer source) = Inr r"
    using tokenize_total by blast
  have "length (m_source (new_Lexer source)) \<le> 2147483647"
    "0 \<le> sint (m_pos (new_Lexer source))"
    "to_size_t (m_pos (new_Lexer source)) \<le> length (m_source (new_Lexer source))"
    using assms by (simp_all add: new_Lexer_def to_size_t_def)
  from reconstruct_drop [OF this r] r tokenize_nth [OF r] show ?thesis
    by (simp add: new_Lexer_def to_size_t_def)
qed

text \<open>The theorem on a source with a comment, a line feed and a trailing space.\<close>

theorem round_trip_witness:
  "tokens ''a //x\<newline>=1 '' =
     Inr [mk_token Identifier ''a'', mk_token Assign ''='', mk_token IntegerLiteral ''1'',
          mk_token EndOfInput []] \<and>
   (\<exists>r. tokenize (new_Lexer ''a //x\<newline>=1 '') = Inr r \<and>
      skipped_spans (new_Lexer ''a //x\<newline>=1 '') r = ['''', '' //x\<newline>'', '''', '' ''] \<and>
      reconstruct (new_Lexer ''a //x\<newline>=1 '') r = ''a //x\<newline>=1 '')"
proof -
  let ?s = "''a //x\<newline>=1 ''"
  let ?r = "[(mk_token Identifier ''a'', \<lparr>m_source = ?s, m_pos = 1, m_start = 0\<rparr>),
      (mk_token Assign ''='', \<lparr>m_source = ?s, m_pos = 7, m_start = 6\<rparr>),
      (mk_token IntegerLiteral ''1'', \<lparr>m_source = ?s, m_pos = 8, m_start = 7\<rparr>),
      (mk_token EndOfInput [], \<lparr>m_source = ?s, m_pos = 9, m_start = 8\<rparr>)]"
  have t: "tokenize (new_Lexer ?s) = Inr ?r"
    by code_simp
  have sp: "skipped_spans (new_Lexer ?s) ?r = ['''', '' //x\<newline>'', '''', '' '']"
    by code_simp
  have "length ?s \<le> 2147483647"
    by simp
  from round_trip [OF this] t have "reconstruct (new_Lexer ?s) ?r = ?s"
    by auto
  with t sp show ?thesis
    by (simp add: tokens_def)
qed

text \<open>
  The claim as it was stated, for every source, fails on 2147483648 spaces followed by
  \<^verbatim>\<open>ab\<close>: the first call already returns the sentinel, so no lexeme is emitted,
  while the source is not white space and comments only: \<^verbatim>\<open>ab\<close> is dropped.
\<close>

theorem round_trip_counterexample:
  "tokenize (new_Lexer (replicate 2147483648 CHR '' '' @ ''ab'')) =
     Inr [(mk_token EndOfInput [],
           \<lparr>m_source = replicate 2147483648 CHR '' '' @ ''ab'', m_pos = - 2147483648,
              m_start = 2147483647\<rparr>)] \<and>
   tokens (replicate 2147483648 CHR '' '' @ ''ab'') = Inr [mk_token EndOfInput []] \<and>
   \<not> is_skipped (replicate 2147483648 CHR '' '' @ ''ab'')"
proof -
  let ?src = "replicate 2147483648 CHR '' '' @ ''ab''"
  have "next (new_Lexer ?src) = next_loop (new_Lexer ?src)"
    by (simp add: next_def new_Lexer_def)
  also have "\<dots> = Inr (mk_token EndOfInput [],
      new_Lexer ?src\<lparr>m_start := 2147483647, m_pos := - 2147483648\<rparr>)"
    by (rule next_loop_spaces_overflow [of _ 0])
      (simp_all add: new_Lexer_def is_space_def nth_append)
  finally have "next (new_Lexer ?src) = Inr (mk_token EndOfInput [],
      \<lparr>m_source = ?src, m_pos = - 2147483648, m_start = 2147483647\<rparr>)"
    by (simp add: new_Lexer_def)
  then have t: "tokenize (new_Lexer ?src) = Inr [(mk_token EndOfInput [],
      \<lparr>m_source = ?src, m_pos = - 2147483648, m_start = 2147483647\<rparr>)]"
    by (rule tokenize_eoi) (simp add: mk_token_def)
  have "skip_len ?src = 2147483648"
    by (simp add: skip_len_spaces skip_len_stop is_space_def)
  then have "\<not> is_skipped ?src"
    by (simp add: is_skipped_iff)
  with t show ?thesis
    by (simp add: tokens_def)
qed

text \<open>
  C1, amended. Maximal munch for the two-character operators, for a source of at most
  2147483647 characters. A call of \<open>next\<close> dispatches at \<open>token_start L\<close>, the first
  position at or after the cursor that is not in white space or a comment (first
  conjunct: the call is the dispatch on the character there, with the character after
  it as look-ahead). Whenever that character is \<^verbatim>\<open>=\<close>, \<^verbatim>\<open>>\<close> or
  \<^verbatim>\<open><\<close>: if the character right after it is \<^verbatim>\<open>=\<close> then \<open>next\<close> consumes
  both and returns one token of kind Equal, GreaterEqual or LesserEqual; otherwise it
  consumes one character and returns Assign, Greater or Lesser. This is for every call,
  whatever was skipped before the operator. In particular \<^verbatim>\<open>==\<close> is one Equal,
  \<^verbatim>\<open>>=\<close> is one GreaterEqual, \<^verbatim>\<open>> =\<close> is Greater then Assign, and
  \<^verbatim>\<open>a == b\<close> has one Equal between two identifiers.
\<close>

theorem maximal_munch:
  "(\<forall>L. length (m_source L) \<le> 2147483647 \<and> token_start L < length (m_source L) \<longrightarrow>
      next L =
        dispatch (m_source L ! token_start L)
          (if Suc (token_start L) < length (m_source L)
           then m_source L ! Suc (token_start L) else CHR 0x00)
          (L\<lparr>m_start := of_nat (token_start L), m_pos := of_nat (token_start L) + 1\<rparr>)) \<and>
   (\<forall>L. length (m_source L) \<le> 2147483647 \<and> token_start L < length (m_source L) \<and>
        m_source L ! token_start L = CHR ''='' \<longrightarrow>
      next L =
        (if Suc (token_start L) < length (m_source L) \<and>
            m_source L ! Suc (token_start L) = CHR ''=''
         then Inr (mk_token Equal ''=='',
                   L\<lparr>m_start := of_nat (token_start L),
                     m_pos := of_nat (token_start L + 2)\<rparr>)
         else Inr (mk_token Assign ''='',
                   L\<lparr>m_start := of_nat (token_start L),
                     m_pos := of_nat (token_start L + 1)\<rparr>))) \<and>
   (\<forall>L. length (m_source L) \<le> 2147483647 \<and> token_start L < length (m_source L) \<and>
        m_source L ! token_start L = CHR ''>'' \<longrightarrow>
      next L =
        (if Suc (token_start L) < length (m_source L) \<and>
            m_source L ! Suc (token_start L) = CHR ''=''
         then Inr (mk_token GreaterEqual ''>='',
                   L\<lparr>m_start := of_nat (token_start L),
                     m_pos := of_nat (token_start L + 2)\<rparr>)
         else Inr (mk_token Greater ''>'',
                   L\<lparr>m_start := of_nat (token_start L),
                     m_pos := of_nat (token_start L + 1)\<rparr>))) \<and>
   (\<forall>L. length (m_source L) \<le> 2147483647 \<and> token_start L < length (m_source L) \<and>
        m_source L ! token_start L = CHR ''<'' \<longrightarrow>
      next L =
        (if Suc (token_start L) < length (m_source L) \<and>
            m_source L ! Suc (token_start L) = CHR ''=''
         then Inr (mk_token LesserEqual ''<='',
                   L\<lparr>m_start := of_nat (token_start L),
                     m_pos := of_nat (token_start L + 2)\<rparr>)
         else Inr (mk_token Lesser ''<'',
                   L\<lparr>m_start := of_nat (token_start L),
                     m_pos := of_nat (token_start L + 1)\<rparr>))) \<and>
   tokens ''=='' = Inr [mk_token Equal ''=='', mk_token EndOfInput []] \<and>
   tokens ''>='' = Inr [mk_token GreaterEqual ''>='', mk_token EndOfInput []] \<and>
   tokens ''> ='' =
     Inr [mk_token Greater ''>'', mk_token Assign ''='', mk_token EndOfInput []] \<and>
   tokens ''a == b'' =
     Inr [mk_token Identifier ''a'', mk_token Equal ''=='', mk_token Identifier ''b'',
          mk_token EndOfInput []]"
proof (intro conjI allI impI)
  show "tokens ''=='' = Inr [mk_token Equal ''=='', mk_token EndOfInput []]"
    by code_simp
  show "tokens ''>='' = Inr [mk_token GreaterEqual ''>='', mk_token EndOfInput []]"
    by code_simp
  show "tokens ''> ='' =
     Inr [mk_token Greater ''>'', mk_token Assign ''='', mk_token EndOfInput []]"
    by code_simp
  show "tokens ''a == b'' =
     Inr [mk_token Identifier ''a'', mk_token Equal ''=='', mk_token Identifier ''b'',
          mk_token EndOfInput []]"
    by code_simp
next
  fix L :: Lexer
  assume "length (m_source L) \<le> 2147483647 \<and> token_start L < length (m_source L)"
  then show "next L =
        dispatch (m_source L ! token_start L)
          (if Suc (token_start L) < length (m_source L)
           then m_source L ! Suc (token_start L) else CHR 0x00)
          (L\<lparr>m_start := of_nat (token_start L), m_pos := of_nat (token_start L) + 1\<rparr>)"
    by (simp add: next_dispatches)
next
  fix L :: Lexer
  assume "length (m_source L) \<le> 2147483647 \<and> token_start L < length (m_source L) \<and>
        m_source L ! token_start L = CHR ''=''"
  then show "next L =
        (if Suc (token_start L) < length (m_source L) \<and>
            m_source L ! Suc (token_start L) = CHR ''=''
         then Inr (mk_token Equal ''=='',
                   L\<lparr>m_start := of_nat (token_start L),
                     m_pos := of_nat (token_start L + 2)\<rparr>)
         else Inr (mk_token Assign ''='',
                   L\<lparr>m_start := of_nat (token_start L),
                     m_pos := of_nat (token_start L + 1)\<rparr>))"
    using next_two_char [of L "CHR ''=''"] by simp
next
  fix L :: Lexer
  assume "length (m_source L) \<le> 2147483647 \<and> token_start L < length (m_source L) \<and>
        m_source L ! token_start L = CHR ''>''"
  then show "next L =
        (if Suc (token_start L) < length (m_source L) \<and>
            m_source L ! Suc (token_start L) = CHR ''=''
         then Inr (mk_token GreaterEqual ''>='',
                   L\<lparr>m_start := of_nat (token_start L),
                     m_pos := of_nat (token_start L + 2)\<rparr>)
         else Inr (mk_token Greater ''>'',
                   L\<lparr>m_start := of_nat (token_start L),
                     m_pos := of_nat (token_start L + 1)\<rparr>))"
    using next_two_char [of L "CHR ''>''"] by simp
next
  fix L :: Lexer
  assume "length (m_source L) \<le> 2147483647 \<and> token_start L < length (m_source L) \<and>
        m_source L ! token_start L = CHR ''<''"
  then show "next L =
        (if Suc (token_start L) < length (m_source L) \<and>
            m_source L ! Suc (token_start L) = CHR ''=''
         then Inr (mk_token LesserEqual ''<='',
                   L\<lparr>m_start := of_nat (token_start L),
                     m_pos := of_nat (token_start L + 2)\<rparr>)
         else Inr (mk_token Lesser ''<'',
                   L\<lparr>m_start := of_nat (token_start L),
                     m_pos := of_nat (token_start L + 1)\<rparr>))"
    using next_two_char [of L "CHR ''<''"] by simp
qed

text \<open>
  The theorem at the second call on \<^verbatim>\<open>a <= b\<close> and on \<^verbatim>\<open>a < b\<close>, where the
  operator comes after a skipped space, and at the first call on \<^verbatim>\<open> // c\<close> then
  \<^verbatim>\<open>=\<close> on the next line, where it comes after a comment and ends the source.
\<close>

theorem maximal_munch_witness:
  "next_n 1 (new_Lexer ''a <= b'') =
     Inr (mk_token LesserEqual ''<='', \<lparr>m_source = ''a <= b'', m_pos = 4, m_start = 2\<rparr>) \<and>
   next_n 1 (new_Lexer ''a < b'') =
     Inr (mk_token Lesser ''<'', \<lparr>m_source = ''a < b'', m_pos = 3, m_start = 2\<rparr>) \<and>
   next (new_Lexer '' // c\<newline>='') =
     Inr (mk_token Assign ''='', \<lparr>m_source = '' // c\<newline>='', m_pos = 7, m_start = 6\<rparr>)"
proof -
  let ?A = "\<lparr>m_source = ''a <= b'', m_pos = 1, m_start = 0\<rparr>"
  let ?B = "\<lparr>m_source = ''a < b'', m_pos = 1, m_start = 0\<rparr>"
  let ?C = "\<lparr>m_source = '' // c\<newline>='', m_pos = 0, m_start = 0\<rparr>"
  have a: "next (new_Lexer ''a <= b'') = Inr (mk_token Identifier ''a'', ?A)"
    and b: "next (new_Lexer ''a < b'') = Inr (mk_token Identifier ''a'', ?B)"
    by code_simp+
  have s: "token_start ?A = 2" "token_start ?B = 2" "token_start ?C = 6"
    by code_simp+
  have "next ?A =
      Inr (mk_token LesserEqual ''<='', \<lparr>m_source = ''a <= b'', m_pos = 4, m_start = 2\<rparr>)"
    using maximal_munch [THEN conjunct2, THEN conjunct2, THEN conjunct2, THEN conjunct1,
        rule_format, of ?A]
    by (simp add: s)
  moreover have "next ?B =
      Inr (mk_token Lesser ''<'', \<lparr>m_source = ''a < b'', m_pos = 3, m_start = 2\<rparr>)"
    using maximal_munch [THEN conjunct2, THEN conjunct2, THEN conjunct2, THEN conjunct1,
        rule_format, of ?B]
    by (simp add: s)
  moreover have "next ?C =
      Inr (mk_token Assign ''='', \<lparr>m_source = '' // c\<newline>='', m_pos = 7, m_start = 6\<rparr>)"
    using maximal_munch [THEN conjunct2, THEN conjunct1, rule_format, of ?C]
    by (simp add: s)
  ultimately show ?thesis
    using a b by (simp add: new_Lexer_def)
qed

text \<open>
  The claim as it was stated, for every input position, fails at position 2147483647
  of a longer source: on 2147483647 spaces followed by \<^verbatim>\<open>==\<close> the scanner
  dispatches on the first \<^verbatim>\<open>=\<close>, which is followed by \<^verbatim>\<open>=\<close>, and returns
  Assign with the one-character lexeme.
\<close>

theorem maximal_munch_counterexample:
  "(replicate 2147483647 CHR '' '' @ ''=='') ! 2147483647 = CHR ''='' \<and>
   (replicate 2147483647 CHR '' '' @ ''=='') ! 2147483648 = CHR ''='' \<and>
   next (new_Lexer (replicate 2147483647 CHR '' '' @ ''=='')) =
     Inr (mk_token Assign ''='',
          \<lparr>m_source = replicate 2147483647 CHR '' '' @ ''=='', m_pos = - 2147483648,
             m_start = 2147483647\<rparr>)"
proof -
  let ?src = "replicate 2147483647 CHR '' '' @ ''==''"
  let ?L1 = "\<lparr>m_source = ?src, m_pos = - 2147483648, m_start = 2147483647\<rparr>"
  have "next (new_Lexer ?src) = dispatch (CHR ''='') (CHR 0x00) ?L1"
    by (rule next_after_spaces) (simp_all add: is_space_def)
  moreover have "dispatch (CHR ''='') (CHR 0x00) ?L1 = Inr (mk_token Assign ''='', ?L1)"
    using dispatch_int_max [of ?L1 "CHR ''=''"]
    by (simp add: nth_append isalpha_def isnumber_def operator_switch_def)
  ultimately show ?thesis
    by (simp add: nth_append)
qed

text \<open>
  C3, amended. Keyword precedence, for a source of at most 2147483647 characters:
  whenever a call of \<open>next\<close> dispatches on an alphabetic character (the character at
  \<open>token_start L\<close>, the first position at or after the cursor that is not in white
  space or a comment), the identifier scan reads that character and the longest run of
  alphanumeric characters after it. When the lexeme is one of the spellings of the
  keyword table (an exact, case-sensitive match) the token has the kind of that keyword
  and never Identifier; every other such lexeme gives kind Identifier.
\<close>

theorem keyword_precedence:
  assumes "length (m_source L) \<le> 2147483647"
    and "token_start L < length (m_source L)"
    and "isalpha (m_source L ! token_start L)"
  defines "lexeme \<equiv> takeWhile isalnum (drop (token_start L) (m_source L))"
  shows "\<exists>t. next L =
        Inr (t, L\<lparr>m_start := of_nat (token_start L),
                  m_pos := of_nat (token_start L + length lexeme)\<rparr>) \<and>
      value t = lexeme \<and>
      lexeme = m_source L ! token_start L #
        takeWhile isalnum (drop (Suc (token_start L)) (m_source L)) \<and>
      (\<forall>k. (lexeme, k) \<in> set keyword_table \<longrightarrow> type t = k \<and> type t \<noteq> Identifier) \<and>
      (lexeme \<notin> fst ` set keyword_table \<longrightarrow> type t = Identifier)"
proof -
  let ?t = "mk_token (case keywordMap lexeme of Some k \<Rightarrow> k | None \<Rightarrow> Identifier) lexeme"
  have n: "next L = Inr (?t, L\<lparr>m_start := of_nat (token_start L),
      m_pos := of_nat (token_start L + length lexeme)\<rparr>)"
    unfolding lexeme_def using assms(1,2,3) by (rule next_identifier)
  have shape: "lexeme = m_source L ! token_start L #
      takeWhile isalnum (drop (Suc (token_start L)) (m_source L))"
    unfolding lexeme_def using assms(2,3) by (intro run_Cons) (simp_all add: isalnum_def)
  have kw: "type ?t = k \<and> type ?t \<noteq> Identifier" if "(lexeme, k) \<in> set keyword_table" for k
  proof -
    from that have "keywordMap lexeme = Some k"
      unfolding keywordMap_def using keyword_table_distinct by (rule map_of_is_SomeI [rotated])
    then show ?thesis
      using keywordMap_not_special [of lexeme k] by (simp add: mk_token_def)
  qed
  have ident: "type ?t = Identifier" if "lexeme \<notin> fst ` set keyword_table"
  proof -
    from that have "keywordMap lexeme = None"
      by (simp add: keywordMap_def map_of_eq_None_iff)
    then show ?thesis
      by (simp add: mk_token_def)
  qed
  have "value ?t = lexeme"
    by (simp add: mk_token_def)
  with n shape kw ident show ?thesis
    by blast
qed

text \<open>
  The theorem at the second, third and fourth call on \<^verbatim>\<open>x if1 if If\<close>, each after
  a skipped space: \<open>if\<close> is the keyword, \<open>if1\<close> and \<open>If\<close> are identifiers.
\<close>

theorem keyword_precedence_witness:
  "next_n 1 (new_Lexer ''x if1 if If'') =
     Inr (mk_token Identifier ''if1'', \<lparr>m_source = ''x if1 if If'', m_pos = 5, m_start = 2\<rparr>) \<and>
   next_n 2 (new_Lexer ''x if1 if If'') =
     Inr (mk_token If_tok ''if'', \<lparr>m_source = ''x if1 if If'', m_pos = 8, m_start = 6\<rparr>) \<and>
   next_n 3 (new_Lexer ''x if1 if If'') =
     Inr (mk_token Identifier ''If'', \<lparr>m_source = ''x if1 if If'', m_pos = 11, m_start = 9\<rparr>)"
proof -
  let ?s = "''x if1 if If''"
  let ?A = "\<lparr>m_source = ?s, m_pos = 1, m_start = 0\<rparr>"
  let ?B = "\<lparr>m_source = ?s, m_pos = 5, m_start = 2\<rparr>"
  let ?C = "\<lparr>m_source = ?s, m_pos = 8, m_start = 6\<rparr>"
  have z: "line t = 0 \<and> column t = 0" if "next M = Inr (t, M')" for M t M'
    using next_returnedD [OF that] by (simp add: returned_def)
  have s: "token_start ?A = 2" "token_start ?B = 6" "token_start ?C = 9"
    by code_simp+
  have a: "next (new_Lexer ?s) = Inr (mk_token Identifier ''x'', ?A)"
    by code_simp
  have "\<exists>t. next ?A = Inr (t, ?B) \<and> value t = ''if1'' \<and> type t = Identifier"
    using keyword_precedence [of ?A]
    by (auto simp: s keyword_table_def isalpha_def isalnum_def isnumber_def)
  with z have b: "next ?A = Inr (mk_token Identifier ''if1'', ?B)"
    by (auto simp: mk_token_def)
  have "\<exists>t. next ?B = Inr (t, ?C) \<and> value t = ''if'' \<and> type t = If_tok"
    using keyword_precedence [of ?B]
    by (auto simp: s keyword_table_def isalpha_def isalnum_def isnumber_def)
  with z have c: "next ?B = Inr (mk_token If_tok ''if'', ?C)"
    by (auto simp: mk_token_def)
  have "\<exists>t. next ?C = Inr (t, \<lparr>m_source = ?s, m_pos = 11, m_start = 9\<rparr>) \<and>
      value t = ''If'' \<and> type t = Identifier"
    using keyword_precedence [of ?C]
    by (auto simp: s keyword_table_def isalpha_def isalnum_def isnumber_def)
  with z have d: "next ?C =
      Inr (mk_token Identifier ''If'', \<lparr>m_source = ?s, m_pos = 11, m_start = 9\<rparr>)"
    by (auto simp: mk_token_def)
  show ?thesis
    by (simp add: eval_nat_numeral a b c d)
qed

text \<open>
  The claim as it was stated, for every identifier-shaped lexeme, fails at position
  2147483647 of a longer source: on 2147483647 spaces followed by \<^verbatim>\<open>if\<close> the
  identifier scan stops after one character, and the keyword comes back as the
  identifier \<open>i\<close>.
\<close>

theorem keyword_precedence_counterexample:
  "drop 2147483647 (replicate 2147483647 CHR '' '' @ ''if'') = ''if'' \<and>
   next (new_Lexer (replicate 2147483647 CHR '' '' @ ''if'')) =
     Inr (mk_token Identifier ''i'',
          \<lparr>m_source = replicate 2147483647 CHR '' '' @ ''if'', m_pos = - 2147483648,
             m_start = 2147483647\<rparr>)"
proof -
  let ?src = "replicate 2147483647 CHR '' '' @ ''if''"
  let ?L1 = "\<lparr>m_source = ?src, m_pos = - 2147483648, m_start = 2147483647\<rparr>"
  have "next (new_Lexer ?src) = dispatch (CHR ''i'') (CHR 0x00) ?L1"
    by (rule next_after_spaces) (simp_all add: is_space_def)
  moreover have "dispatch (CHR ''i'') (CHR 0x00) ?L1 = Inr (mk_token Identifier ''i'', ?L1)"
    using dispatch_int_max [of ?L1 "CHR ''i''"]
    by (simp add: nth_append isalpha_def keywordMap_def keyword_table_def)
  ultimately show ?thesis
    by simp
qed

text \<open>
  C5, amended. An invalid character is data, never an error. For a source of at most
  2147483647 characters: whenever a call of \<open>next\<close> dispatches on a character (the
  one at \<open>token_start L\<close>, which is never white space and never starts a comment)
  that is not alphabetic, not a digit and not one of the operator and punctuation
  characters, the call returns a token of kind Invalid whose lexeme is that one
  character, the position moves just past it, and the next call dispatches at the first
  position from there on that is not in white space or a comment, so scanning resumes
  at the following position. For a source of any length, \<open>next\<close> has no failure path:
  it returns a token for every scanner, and so does every later call.
\<close>

theorem invalid_character:
  "(\<forall>c. length (m_source L) \<le> 2147483647 \<and> token_start L < length (m_source L) \<and>
        m_source L ! token_start L = c \<and>
        \<not> isalpha c \<and> \<not> isnumber c \<and> c \<notin> set ''=*/+-><{}(),:;'' \<longrightarrow>
        \<not> is_space c \<and>
        next L =
          Inr (mk_token Invalid [c],
               L\<lparr>m_start := of_nat (token_start L),
                 m_pos := of_nat (token_start L + 1)\<rparr>) \<and>
        to_size_t (of_nat (token_start L + 1) :: int32) = token_start L + 1 \<and>
        token_start (L\<lparr>m_start := of_nat (token_start L),
                       m_pos := of_nat (token_start L + 1)\<rparr>) =
          token_start L + 1 + skip_len (drop (token_start L + 1) (m_source L))) \<and>
   (\<forall>e. next L \<noteq> Inl e) \<and>
   (\<exists>t L'. next L = Inr (t, L')) \<and>
   (\<forall>n. \<exists>t L'. next_n n L = Inr (t, L'))"
proof (intro conjI allI impI)
  fix c
  assume a: "length (m_source L) \<le> 2147483647 \<and> token_start L < length (m_source L) \<and>
        m_source L ! token_start L = c \<and>
        \<not> isalpha c \<and> \<not> isnumber c \<and> c \<notin> set ''=*/+-><{}(),:;''"
  then have len: "length (m_source L) \<le> 2147483647"
    and s: "token_start L < length (m_source L)"
    and c: "m_source L ! token_start L = c"
    by simp_all
  let ?p = "to_size_t (m_pos L)"
  have "skip_len (drop ?p (m_source L)) < length (drop ?p (m_source L))"
    using s by (simp add: token_start_def)
  from skip_len_stops [OF this] s c show "\<not> is_space c"
    by (simp add: token_start_def add.commute)
  from a show "next L =
      Inr (mk_token Invalid [c],
           L\<lparr>m_start := of_nat (token_start L), m_pos := of_nat (token_start L + 1)\<rparr>)"
    using next_invalid [of L] by simp
  from len s have e: "token_start L + 1 \<le> 2147483647"
    by simp
  then show "to_size_t (of_nat (token_start L + 1) :: int32) = token_start L + 1"
    by (rule to_size_t_of_nat)
  from e show "token_start (L\<lparr>m_start := of_nat (token_start L),
                       m_pos := of_nat (token_start L + 1)\<rparr>) =
          token_start L + 1 + skip_len (drop (token_start L + 1) (m_source L))"
    by (rule token_start_after)
next
  fix e
  show "next L \<noteq> Inl e"
    by (rule next_not_Inl)
next
  show "\<exists>t L'. next L = Inr (t, L')"
    using next_returned [of L] by blast
next
  fix n
  show "\<exists>t L'. next_n n L = Inr (t, L')"
    by (rule next_n_total)
qed

text \<open>
  The theorem at the second call on \<^verbatim>\<open>a # b\<close>, where the \<^verbatim>\<open>#\<close> comes after
  a skipped space; scanning goes on with \<open>b\<close>. A quote character is invalid too.
\<close>

theorem invalid_character_witness:
  "next_n 1 (new_Lexer ''a # b'') =
     Inr (mk_token Invalid ''#'', \<lparr>m_source = ''a # b'', m_pos = 3, m_start = 2\<rparr>) \<and>
   token_start \<lparr>m_source = ''a # b'', m_pos = 3, m_start = 2\<rparr> = 4 \<and>
   next_n 2 (new_Lexer ''a # b'') =
     Inr (mk_token Identifier ''b'', \<lparr>m_source = ''a # b'', m_pos = 5, m_start = 4\<rparr>) \<and>
   tokens [CHR 0x22, CHR ''.''] =
     Inr [mk_token Invalid [CHR 0x22], mk_token Invalid ''.'', mk_token EndOfInput []]"
proof -
  let ?A = "\<lparr>m_source = ''a # b'', m_pos = 1, m_start = 0\<rparr>"
  let ?B = "\<lparr>m_source = ''a # b'', m_pos = 3, m_start = 2\<rparr>"
  have a: "next (new_Lexer ''a # b'') = Inr (mk_token Identifier ''a'', ?A)"
    by code_simp
  have s: "token_start ?A = 2"
    by code_simp
  have k: "skip_len '' b'' = 1"
    by code_simp
  from invalid_character [of ?A, THEN conjunct1, rule_format, of "CHR ''#''"]
  have b: "next ?A = Inr (mk_token Invalid ''#'', ?B)" and s': "token_start ?B = 4"
    by (simp_all add: s k isalpha_def isnumber_def)
  have c: "next ?B =
      Inr (mk_token Identifier ''b'', \<lparr>m_source = ''a # b'', m_pos = 5, m_start = 4\<rparr>)"
    by code_simp
  have "tokens [CHR 0x22, CHR ''.''] =
     Inr [mk_token Invalid [CHR 0x22], mk_token Invalid ''.'', mk_token EndOfInput []]"
    by code_simp
  with a b c s' show ?thesis
    by (simp add: eval_nat_numeral)
qed

text \<open>
  The claim as it was stated, for every such character, fails at position 2147483647
  of a longer source: on 2147483647 spaces followed by \<^verbatim>\<open>#a\<close> the first call
  returns Invalid \<^verbatim>\<open>#\<close> and leaves the position at -2147483648, so scanning does
  not resume at the following position, which holds \<open>a\<close>: the next call returns the
  sentinel.
\<close>

theorem invalid_character_counterexample:
  "(replicate 2147483647 CHR '' '' @ ''#a'') ! 2147483648 = CHR ''a'' \<and>
   next (new_Lexer (replicate 2147483647 CHR '' '' @ ''#a'')) =
     Inr (mk_token Invalid ''#'',
          \<lparr>m_source = replicate 2147483647 CHR '' '' @ ''#a'', m_pos = - 2147483648,
             m_start = 2147483647\<rparr>) \<and>
   next_n 1 (new_Lexer (replicate 2147483647 CHR '' '' @ ''#a'')) =
     Inr (mk_token EndOfInput [],
          \<lparr>m_source = replicate 2147483647 CHR '' '' @ ''#a'', m_pos = - 2147483648,
             m_start = 2147483647\<rparr>)"
proof -
  let ?src = "replicate 2147483647 CHR '' '' @ ''#a''"
  let ?L1 = "\<lparr>m_source = ?src, m_pos = - 2147483648, m_start = 2147483647\<rparr>"
  have "next (new_Lexer ?src) = dispatch (CHR ''#'') (CHR 0x00) ?L1"
    by (rule next_after_spaces) (simp_all add: is_space_def)
  moreover have "dispatch (CHR ''#'') (CHR 0x00) ?L1 = Inr (mk_token Invalid ''#'', ?L1)"
    using dispatch_int_max [of ?L1 "CHR ''#''"]
    by (simp add: nth_append isalpha_def isnumber_def operator_switch_def)
  ultimately have a: "next (new_Lexer ?src) = Inr (mk_token Invalid ''#'', ?L1)"
    by simp
  have "\<not> less_size (m_pos ?L1) (length (m_source ?L1))"
    by (simp add: not_less_size_int_min)
  then have "next ?L1 = Inr (mk_token EndOfInput [], ?L1)"
    by (rule next_at_end)
  with a show ?thesis
    by (simp add: nth_append)
qed

text \<open>
  C8, amended. Number scan, for a source of at most 2147483647 characters: whenever a
  call of \<open>next\<close> dispatches on a decimal digit (the character at \<open>token_start L\<close>,
  the first position at or after the cursor that is not in white space or a comment),
  it consumes the longest run of digits that starts there and returns one
  IntegerLiteral whose lexeme is that run. A \<^verbatim>\<open>-\<close> is a token of kind Minus of its
  own, whatever follows it. And every call that returns an IntegerLiteral has
  dispatched on a digit and returns exactly the run of digits from there, so the lexeme
  never holds anything but digits (no sign, no decimal point, no exponent).
\<close>

theorem number_scan:
  defines "digits L \<equiv> takeWhile isnumber (drop (token_start L) (m_source L))"
  shows "(\<forall>L. length (m_source L) \<le> 2147483647 \<and> token_start L < length (m_source L) \<and>
         isnumber (m_source L ! token_start L) \<longrightarrow>
       next L =
         Inr (mk_token IntegerLiteral (digits L),
              L\<lparr>m_start := of_nat (token_start L),
                m_pos := of_nat (token_start L + length (digits L))\<rparr>) \<and>
       digits L \<noteq> [] \<and> (\<forall>c\<in>set (digits L). isnumber c) \<and>
       (token_start L + length (digits L) < length (m_source L) \<longrightarrow>
          \<not> isnumber (m_source L ! (token_start L + length (digits L))))) \<and>
     (\<forall>L. length (m_source L) \<le> 2147483647 \<and> token_start L < length (m_source L) \<and>
         m_source L ! token_start L = CHR ''-'' \<longrightarrow>
       next L =
         Inr (mk_token Minus ''-'',
              L\<lparr>m_start := of_nat (token_start L),
                m_pos := of_nat (token_start L + 1)\<rparr>)) \<and>
     (\<forall>L t L'. length (m_source L) \<le> 2147483647 \<and> next L = Inr (t, L') \<and>
         type t = IntegerLiteral \<longrightarrow>
       token_start L < length (m_source L) \<and> isnumber (m_source L ! token_start L) \<and>
       value t = digits L \<and> value t \<noteq> [] \<and> (\<forall>c\<in>set (value t). isnumber c))"
proof (intro conjI allI impI ballI)
  fix L :: Lexer
  assume a: "length (m_source L) \<le> 2147483647 \<and> token_start L < length (m_source L) \<and>
         isnumber (m_source L ! token_start L)"
  then show "next L =
         Inr (mk_token IntegerLiteral (digits L),
              L\<lparr>m_start := of_nat (token_start L),
                m_pos := of_nat (token_start L + length (digits L))\<rparr>)"
    unfolding digits_def by (simp add: next_number)
  from a show "digits L \<noteq> []"
    unfolding digits_def by (simp add: run_Cons)
  {
    fix c
    assume "c \<in> set (digits L)"
    then show "isnumber c"
      unfolding digits_def by (rule set_takeWhileD [THEN conjunct2])
  }
  {
    assume b: "token_start L + length (digits L) < length (m_source L)"
    then have "length (takeWhile isnumber (drop (token_start L) (m_source L)))
        < length (drop (token_start L) (m_source L))"
      unfolding digits_def by simp
    from nth_length_takeWhile [OF this] b
    show "\<not> isnumber (m_source L ! (token_start L + length (digits L)))"
      unfolding digits_def by simp
  }
next
  fix L :: Lexer
  assume "length (m_source L) \<le> 2147483647 \<and> token_start L < length (m_source L) \<and>
         m_source L ! token_start L = CHR ''-''"
  then show "next L =
      Inr (mk_token Minus ''-'',
           L\<lparr>m_start := of_nat (token_start L), m_pos := of_nat (token_start L + 1)\<rparr>)"
    by (simp add: next_minus)
next
  fix L :: Lexer and t L'
  assume "length (m_source L) \<le> 2147483647 \<and> next L = Inr (t, L') \<and>
         type t = IntegerLiteral"
  then have a: "length (m_source L) \<le> 2147483647" "next L = Inr (t, L')"
    "type t = IntegerLiteral"
    by simp_all
  note d = integer_literal_digits [OF a]
  show "token_start L < length (m_source L)"
    by (rule d(1))
  show "isnumber (m_source L ! token_start L)"
    by (rule d(2))
  show v: "value t = digits L"
    unfolding digits_def by (rule d(3))
  show "value t \<noteq> []"
    using d(1,2) unfolding d(3) by (simp add: run_Cons)
  {
    fix c
    assume "c \<in> set (value t)"
    then show "isnumber c"
      unfolding d(3) by (rule set_takeWhileD [THEN conjunct2])
  }
qed

text \<open>
  The theorem at the second and third call on \<^verbatim>\<open>x - 180.5\<close>: Minus after a
  skipped space, then, after another space, the literal \<open>180\<close>, which stops at the
  dot; the dot is an invalid character.
\<close>

theorem number_scan_witness:
  "next_n 1 (new_Lexer ''x - 180.5'') =
     Inr (mk_token Minus ''-'', \<lparr>m_source = ''x - 180.5'', m_pos = 3, m_start = 2\<rparr>) \<and>
   next_n 2 (new_Lexer ''x - 180.5'') =
     Inr (mk_token IntegerLiteral ''180'', \<lparr>m_source = ''x - 180.5'', m_pos = 7, m_start = 4\<rparr>) \<and>
   next_n 3 (new_Lexer ''x - 180.5'') =
     Inr (mk_token Invalid ''.'', \<lparr>m_source = ''x - 180.5'', m_pos = 8, m_start = 7\<rparr>)"
proof -
  let ?s = "''x - 180.5''"
  let ?A = "\<lparr>m_source = ?s, m_pos = 1, m_start = 0\<rparr>"
  let ?B = "\<lparr>m_source = ?s, m_pos = 3, m_start = 2\<rparr>"
  let ?C = "\<lparr>m_source = ?s, m_pos = 7, m_start = 4\<rparr>"
  have a: "next (new_Lexer ?s) = Inr (mk_token Identifier ''x'', ?A)"
    by code_simp
  have s: "token_start ?A = 2" "token_start ?B = 4"
    by code_simp+
  have b: "next ?A = Inr (mk_token Minus ''-'', ?B)"
    using number_scan [THEN conjunct2, THEN conjunct1, THEN spec, of ?A]
    by (simp add: s)
  have c: "next ?B = Inr (mk_token IntegerLiteral ''180'', ?C)"
    using number_scan [THEN conjunct1, THEN spec, of ?B]
    by (simp add: s isnumber_def)
  have d: "next ?C =
      Inr (mk_token Invalid ''.'', \<lparr>m_source = ?s, m_pos = 8, m_start = 7\<rparr>)"
    by code_simp
  show ?thesis
    by (simp add: eval_nat_numeral a b c d)
qed

text \<open>
  The claim as it was stated, for every input position, fails at position 2147483647
  of a longer source: on 2147483647 spaces followed by \<^verbatim>\<open>12\<close> the number scan
  stops after one digit, and the literal is \<open>1\<close>, not the run \<open>12\<close>.
\<close>

theorem number_scan_counterexample:
  "drop 2147483647 (replicate 2147483647 CHR '' '' @ ''12'') = ''12'' \<and>
   takeWhile isnumber ''12'' = ''12'' \<and>
   next (new_Lexer (replicate 2147483647 CHR '' '' @ ''12'')) =
     Inr (mk_token IntegerLiteral ''1'',
          \<lparr>m_source = replicate 2147483647 CHR '' '' @ ''12'', m_pos = - 2147483648,
             m_start = 2147483647\<rparr>)"
proof -
  let ?src = "replicate 2147483647 CHR '' '' @ ''12''"
  let ?L1 = "\<lparr>m_source = ?src, m_pos = - 2147483648, m_start = 2147483647\<rparr>"
  have "next (new_Lexer ?src) = dispatch (CHR ''1'') (CHR 0x00) ?L1"
    by (rule next_after_spaces) (simp_all add: is_space_def)
  moreover have "dispatch (CHR ''1'') (CHR 0x00) ?L1 = Inr (mk_token IntegerLiteral ''1'', ?L1)"
    using dispatch_int_max [of ?L1 "CHR ''1''"]
    by (simp add: nth_append isalpha_def isnumber_def)
  ultimately show ?thesis
    by (simp add: isnumber_def)
qed

end
